theory Spec2Isabelle
  imports Main "HOL-Library.Word" "HOL-Library.Code_Target_Numeral"
begin

unbundle bit_operations_syntax

section \<open>The XModem sender of flash\_la66.go\<close>

text \<open>
  A shallow embedding of \<^verbatim>\<open>src/flash_la66.go\<close>: the checksum, the timeout-bounded read,
  the buffer flush, and the three phases of \<^verbatim>\<open>xmodemSend\<close> (handshake, data blocks,
  end of transmission), followed by the result handling of \<^verbatim>\<open>main\<close>.

  Go's \<^verbatim>\<open>byte\<close> is an 8-bit word, so \<open>+\<close> wraps modulo 256 and \<open>NOT\<close> is the
  one's complement \<^verbatim>\<open>^blockNum\<close>. Loop counters (\<^verbatim>\<open>retry\<close>, bounded by 10) are
  naturals. \<^verbatim>\<open>totalBytesSent\<close> is an \<^verbatim>\<open>int64\<close> that only ever holds a number of bytes
  read from one file, whose size the operating system itself keeps in an \<^verbatim>\<open>int64\<close>;
  it cannot wrap and is modelled as an \<open>int\<close>. Durations are in milliseconds.
\<close>

subsection \<open>Protocol constants\<close>

type_synonym byte = "8 word"

definition SOH :: byte where "SOH = 0x01"
definition EOT :: byte where "EOT = 0x04"
definition ACK :: byte where "ACK = 0x06"
definition NAK :: byte where "NAK = 0x15"
definition CAN :: byte where "CAN = 0x18"
definition CRC_START :: byte where "CRC_START = 0x43"
definition DATA_SIZE :: nat where "DATA_SIZE = 128"
definition MAX_RETRIES :: nat where "MAX_RETRIES = 10"
definition HANDSHAKE_TIMEOUT :: nat where "HANDSHAKE_TIMEOUT = 10000"

lemmas xmodem_consts =
  SOH_def EOT_def ACK_def NAK_def CAN_def CRC_START_def DATA_SIZE_def MAX_RETRIES_def
  HANDSHAKE_TIMEOUT_def

subsection \<open>calculateChecksum\<close>

text \<open>
  \<^verbatim>\<open>var checksum byte = 0; for _, b := range data { checksum += b }; return checksum\<close>
\<close>

definition calculateChecksum :: "byte list \<Rightarrow> byte" where
  "calculateChecksum data = fold (\<lambda>b checksum. checksum + b) data 0"

subsection \<open>The serial port and the clock\<close>

text \<open>
  The port is the environment of the sender. Every call of \<^verbatim>\<open>port.Read\<close> that
  \<^verbatim>\<open>readWithTimeout\<close> starts has an outcome that the receiver and the driver decide: how
  long the call blocks and what it returns, either an error (\<^verbatim>\<open>0, err\<close>) or some bytes
  (\<^verbatim>\<open>n, nil\<close>, possibly none). The port carries the script of the outcomes of the reads
  still to come, the log of everything written so far, and the current time. A script that
  has run out means a receiver that stays silent: every further read blocks until its
  timeout. \<^verbatim>\<open>port.Write\<close> appends to the log; the sender ignores its result. Only
  blocking reads and \<^verbatim>\<open>time.Sleep\<close> let time pass.
\<close>

datatype read_result = ReadError | ReadBytes "byte list"

type_synonym read_event = "nat \<times> read_result"

record port =
  script :: "read_event list"
  written :: "byte list list"
  now :: nat

datatype io_error = IoEOF | PortError

definition portWrite :: "port \<Rightarrow> byte list \<Rightarrow> port" where
  "portWrite p bs = p\<lparr>written := written p @ [bs]\<rparr>"

definition sleep :: "nat \<Rightarrow> port \<Rightarrow> port" where
  "sleep d p = p\<lparr>now := now p + d\<rparr>"

text \<open>
  \<^verbatim>\<open>readWithTimeout(port, buf, timeout)\<close> races the read against a timer. When the read
  returns first, the result is \<^verbatim>\<open>res.n, buf, res.err\<close>, with the bytes read stored at
  the front of \<^verbatim>\<open>buf\<close>. When the timer fires first the result is \<^verbatim>\<open>0, nil, io.EOF\<close>
  (the nil slice is the empty list); the read that is still under way uses up its event,
  and what it returns later reaches no caller.
\<close>

definition readWithTimeout ::
  "port \<Rightarrow> byte list \<Rightarrow> nat \<Rightarrow> (nat \<times> byte list \<times> io_error option) \<times> port" where
  "readWithTimeout p buf timeout =
     (case script p of
        [] \<Rightarrow> ((0, [], Some IoEOF), p\<lparr>now := now p + timeout\<rparr>)
      | (d, r) # rest \<Rightarrow>
          if d < timeout then
            (case r of
               ReadError \<Rightarrow>
                 ((0, buf, Some PortError), p\<lparr>script := rest, now := now p + d\<rparr>)
             | ReadBytes bs \<Rightarrow>
                 (let n = min (length bs) (length buf)
                  in ((n, take n bs @ drop n buf, None),
                      p\<lparr>script := rest, now := now p + d\<rparr>)))
          else ((0, [], Some IoEOF), p\<lparr>script := rest, now := now p + timeout\<rparr>))"

lemma readWithTimeout_script:
  "readWithTimeout p buf t = (r, p') \<Longrightarrow> script p' = tl (script p)"
  by (auto simp: readWithTimeout_def Let_def split: list.splits if_splits read_result.splits)

lemma readWithTimeout_written:
  "readWithTimeout p buf t = (r, p') \<Longrightarrow> written p' = written p"
  by (auto simp: readWithTimeout_def Let_def split: list.splits if_splits read_result.splits)

lemma readWithTimeout_progress:
  "readWithTimeout p buf t = ((n, b, None), p') \<Longrightarrow> length (script p') < length (script p)"
  by (auto simp: readWithTimeout_def Let_def split: list.splits if_splits read_result.splits)

subsection \<open>flushSerialBuffer\<close>

text \<open>
  \<^verbatim>\<open>buffer := make([]byte, 100); for { n, _, err := readWithTimeout(port, buffer, 100ms);
  if err != nil || n == 0 { break } }\<close>
\<close>

function flushLoop :: "byte list \<Rightarrow> port \<Rightarrow> port" where
  "flushLoop buffer p =
     (case readWithTimeout p buffer 100 of
        ((n, buffer', err), p') \<Rightarrow>
          if err \<noteq> None \<or> n = 0 then p' else flushLoop buffer' p')"
  by pat_completeness auto
termination
  by (relation "measure (\<lambda>(buffer, p). length (script p))")
     (auto dest: readWithTimeout_progress [OF sym])

declare flushLoop.simps [simp del]

definition flushSerialBuffer :: "port \<Rightarrow> port" where
  "flushSerialBuffer p = flushLoop (replicate 100 0) p"

subsection \<open>The firmware file\<close>

text \<open>
  The file is the bytes not yet read, and the number of further bytes the device
  delivers before a read fails (\<open>None\<close> for a device that never fails).
  \<^verbatim>\<open>io.ReadFull(file, dataBuffer)\<close> fills the buffer from the front. It returns
  \<^verbatim>\<open>io.EOF\<close> when no byte is left, \<^verbatim>\<open>io.ErrUnexpectedEOF\<close> with the bytes read when
  fewer than the buffer's length are left, and the device's error when the device fails
  before the buffer is full. The buffer is \<^verbatim>\<open>make([]byte, DATA_SIZE)\<close> at its one call
  site and is never resliced, so a read asks for \<open>DATA_SIZE\<close> bytes.
\<close>

record firmware =
  remaining :: "byte list"
  fault_after :: "nat option"

datatype file_error = EOF | ErrUnexpectedEOF | ErrDevice

definition device_fault :: "firmware \<Rightarrow> bool" where
  "device_fault f =
     (case fault_after f of
        None \<Rightarrow> False
      | Some k \<Rightarrow> k < DATA_SIZE \<and> k < length (remaining f))"

definition ReadFull ::
  "firmware \<Rightarrow> byte list \<Rightarrow> (nat \<times> byte list \<times> file_error option) \<times> firmware" where
  "ReadFull f buf =
     (let rest = remaining f in
      if device_fault f then
        (let k = the (fault_after f)
         in ((k, take k rest @ drop k buf, Some ErrDevice),
             f\<lparr>remaining := drop k rest, fault_after := Some 0\<rparr>))
      else if rest = [] then ((0, buf, Some EOF), f)
      else if length rest < DATA_SIZE then
        ((length rest, rest @ drop (length rest) buf, Some ErrUnexpectedEOF),
         f\<lparr>remaining := []\<rparr>)
      else
        ((DATA_SIZE, take DATA_SIZE rest @ drop DATA_SIZE buf, None),
         f\<lparr>remaining := drop DATA_SIZE rest,
           fault_after := map_option (\<lambda>k. k - DATA_SIZE) (fault_after f)\<rparr>))"

lemma ReadFull_progress:
  "ReadFull f buf = ((n, b, e), f') \<Longrightarrow> e \<noteq> Some EOF \<Longrightarrow> e \<noteq> Some ErrDevice \<Longrightarrow>
   length (remaining f') < length (remaining f)"
  by (auto simp: ReadFull_def Let_def DATA_SIZE_def split: if_splits)

subsection \<open>xmodemSend\<close>

datatype xerror =
    HandshakeTimeout
  | HandshakeFailed
  | FileReadError
  | TransferCancelled
  | MaxRetriesReached byte
  | FinalAckMissing

text \<open>
  The errors of \<^verbatim>\<open>xmodemSend\<close>, one for each \<^verbatim>\<open>fmt.Errorf\<close> of the source:
  "handshake timeout: did not receive 'C' or NAK from bootloader",
  "handshake failed before data transfer attempt", "file read error: ...",
  "transfer cancelled by receiver", "transfer failed: max retries reached for block n",
  "transfer successful but failed to receive final ACK for EOT".
\<close>

subsubsection \<open>Handshake\<close>

text \<open>
  \<^verbatim>\<open>for time.Since(startTime) < HANDSHAKE_TIMEOUT { ... }\<close>: the loop writes four
  \<^verbatim>\<open>CRC_START\<close> bytes, reads one byte with a timeout of 1.5 s into a fresh buffer, breaks
  with \<^verbatim>\<open>handshakeDone = true\<close> on \<^verbatim>\<open>CRC_START\<close> or \<^verbatim>\<open>NAK\<close>, and returns the
  timeout error when the window has passed. The three ways out of the loop are the three
  values of \<open>handshake_exit\<close>.
\<close>

datatype handshake_exit = Negotiated | TimedOut | WindowClosed

definition probe :: "byte list" where
  "probe = [CRC_START, CRC_START, CRC_START, CRC_START]"

definition handshakeAttempt :: "port \<Rightarrow> (nat \<times> byte list \<times> io_error option) \<times> port" where
  "handshakeAttempt p = readWithTimeout (portWrite p probe) [0] 1500"

lemma handshakeAttempt_measure:
  assumes "handshakeAttempt p = (r, p')"
  shows "length (script p') < length (script p) \<or>
         (script p' = [] \<and> script p = [] \<and> now p' = now p + 1500)"
  using assms
  by (auto simp: handshakeAttempt_def readWithTimeout_def portWrite_def Let_def
           split: list.splits if_splits read_result.splits)

function handshakeLoop :: "nat \<Rightarrow> port \<Rightarrow> handshake_exit \<times> port" where
  "handshakeLoop startTime p =
     (if now p - startTime < HANDSHAKE_TIMEOUT then
        (case handshakeAttempt p of
           ((n, response, err), p') \<Rightarrow>
             if err = None \<and> length response > 0 \<and>
                (hd response = CRC_START \<or> hd response = NAK)
             then (Negotiated, p')
             else if now p' - startTime \<ge> HANDSHAKE_TIMEOUT then (TimedOut, p')
             else handshakeLoop startTime p')
      else (WindowClosed, p))"
  by pat_completeness auto

termination
  apply (relation "measures [\<lambda>(s, p). length (script p), \<lambda>(s, p). (s + HANDSHAKE_TIMEOUT) - now p]")
   apply simp
  apply (auto dest!: handshakeAttempt_measure [OF sym] simp: HANDSHAKE_TIMEOUT_def)
  done

declare handshakeLoop.simps [simp del]

subsubsection \<open>Sending one block\<close>

text \<open>
  The packet of lines 148 to 158: \<^verbatim>\<open>SOH, blockNum, ^blockNum\<close>, the data buffer, and the
  checksum of the data buffer.
\<close>

definition buildPacket :: "byte \<Rightarrow> byte list \<Rightarrow> byte list" where
  "buildPacket blockNum dataBuffer =
     [SOH, blockNum, NOT blockNum] @ dataBuffer @ [calculateChecksum dataBuffer]"

text \<open>
  \<^verbatim>\<open>for retry := 0; retry < MAX_RETRIES; retry++\<close>: write the packet, read one byte with a
  timeout of 5 s into a fresh buffer, and switch on it. \<^verbatim>\<open>ACK\<close> leaves the loop by
  \<^verbatim>\<open>goto NextBlock\<close> (the caller then adds to \<^verbatim>\<open>totalBytesSent\<close> and increments
  \<^verbatim>\<open>blockNum\<close>), \<^verbatim>\<open>CAN\<close> returns from \<^verbatim>\<open>xmodemSend\<close>, \<^verbatim>\<open>NAK\<close> and any other byte
  flush the port and continue, a timeout or a read error continues. The loop running out
  is the third way to leave it.
\<close>

datatype block_exit = NextBlock | Cancelled | Exhausted

function sendBlockLoop :: "nat \<Rightarrow> byte \<Rightarrow> byte list \<Rightarrow> port \<Rightarrow> block_exit \<times> port" where
  "sendBlockLoop retry blockNum dataBuffer p =
     (if retry < MAX_RETRIES then
        (case readWithTimeout (portWrite p (buildPacket blockNum dataBuffer)) [0] 5000 of
           ((n, response, err), p') \<Rightarrow>
             if err = None \<and> length response > 0 then
               (if hd response = ACK then (NextBlock, p')
                else if hd response = NAK then
                  sendBlockLoop (retry + 1) blockNum dataBuffer (flushSerialBuffer p')
                else if hd response = CAN then (Cancelled, p')
                else sendBlockLoop (retry + 1) blockNum dataBuffer (flushSerialBuffer p'))
             else sendBlockLoop (retry + 1) blockNum dataBuffer p')
      else (Exhausted, p))"
  by pat_completeness auto
termination
  by (relation "measure (\<lambda>(retry, blockNum, dataBuffer, p). MAX_RETRIES - retry)") auto

declare sendBlockLoop.simps [simp del]

subsubsection \<open>The data loop\<close>

text \<open>
  \<^verbatim>\<open>for { n, err := io.ReadFull(file, dataBuffer); ... }\<close>: end of file breaks out of the
  loop (error \<open>None\<close> below), any other error but \<^verbatim>\<open>io.ErrUnexpectedEOF\<close> returns the
  file read error, a short block is padded with \<^verbatim>\<open>0x1A\<close> from index \<^verbatim>\<open>n\<close> on, and the
  block is sent. The result is the error, \<^verbatim>\<open>totalBytesSent\<close> and the port.
\<close>

definition padBlock :: "nat \<Rightarrow> byte list \<Rightarrow> byte list" where
  "padBlock n dataBuffer =
     (if n < DATA_SIZE then take n dataBuffer @ replicate (DATA_SIZE - n) 0x1A
      else dataBuffer)"

function dataLoop ::
  "int \<Rightarrow> byte \<Rightarrow> byte list \<Rightarrow> firmware \<Rightarrow> port \<Rightarrow> xerror option \<times> int \<times> port" where
  "dataLoop totalBytesSent blockNum dataBuffer f p =
     (case ReadFull f dataBuffer of
        ((n, buf, err), f') \<Rightarrow>
          if err = Some EOF then (None, totalBytesSent, p)
          else if err \<noteq> None \<and> err \<noteq> Some ErrUnexpectedEOF then
            (Some FileReadError, totalBytesSent, p)
          else
            (case sendBlockLoop 0 blockNum (padBlock n buf) p of
               (NextBlock, p') \<Rightarrow>
                 dataLoop (totalBytesSent + int n) (blockNum + 1) (padBlock n buf) f' p'
             | (Cancelled, p') \<Rightarrow> (Some TransferCancelled, totalBytesSent, p')
             | (Exhausted, p') \<Rightarrow> (Some (MaxRetriesReached blockNum), totalBytesSent, p')))"
  by pat_completeness auto
termination
  apply (relation "measure (\<lambda>(t, b, d, f, p). length (remaining f))")
   apply simp
  apply (auto dest!: ReadFull_progress [OF sym])
  done

declare dataLoop.simps [simp del]

subsubsection \<open>End of transmission\<close>

text \<open>
  The goroutine that \<^verbatim>\<open>readWithTimeout\<close> starts for a read is not stopped by the
  timeout: when its read returns later, it has stored the bytes read at the front of
  the \<^verbatim>\<open>buf\<close> it was given. \<open>lateStore p buf timeout\<close> is that store for the read
  that starts on \<open>p\<close>: the time at which the read returns and the bytes it stores,
  when the read returns bytes and the timer has fired first. \<open>bufferAt t buffer late\<close>
  is the content at time \<open>t\<close> of a buffer that held \<open>buffer\<close> and into which the stores
  \<open>late\<close> are under way: those that have happened by \<open>t\<close> (one that happens at \<open>t\<close>
  itself is counted among them) are in it, in the order of their times. Only the loop
  below hands one buffer to several reads and looks into it: the handshake and the retry
  loop of a block allocate a buffer for each read, and \<^verbatim>\<open>flushSerialBuffer\<close> uses only
  the count of a read.
\<close>

type_synonym late_store = "nat \<times> byte list"

definition lateStore :: "port \<Rightarrow> byte list \<Rightarrow> nat \<Rightarrow> late_store list" where
  "lateStore p buf timeout =
     (case script p of
        [] \<Rightarrow> []
      | (d, r) # rest \<Rightarrow>
          if d < timeout then []
          else (case r of
                  ReadError \<Rightarrow> []
                | ReadBytes bs \<Rightarrow> [(now p + d, take (min (length bs) (length buf)) bs)]))"

definition bufferAt :: "nat \<Rightarrow> byte list \<Rightarrow> late_store list \<Rightarrow> byte list" where
  "bufferAt t buffer late =
     fold (\<lambda>(s, bs) buf. bs @ drop (length bs) buf)
       (sort_key fst (filter (\<lambda>(s, bs). s \<le> t) late)) buffer"

text \<open>
  \<^verbatim>\<open>response := make([]byte, 1); for retry := 0; retry < 10; retry++ { ... }\<close>: write
  \<^verbatim>\<open>EOT\<close>, read one byte with a timeout of 5 s, return success on \<^verbatim>\<open>ACK\<close>, else sleep
  500 ms. The buffer is allocated once, before the loop; the \<^verbatim>\<open>response\<close> that the
  loop body declares shadows it. So every read of the loop is given the same buffer, and
  the slice a read returns in time is that buffer as it is then: with the stores of the
  earlier reads of the loop that timed out and have returned since (\<open>late\<close> holds those
  still under way), and on top the bytes of the read itself. A read that returns no byte
  hands back whatever the buffer holds, which the test then takes for the reply. After
  a timeout the slice is nil and the test fails.
\<close>

function eotLoop :: "nat \<Rightarrow> byte list \<Rightarrow> late_store list \<Rightarrow> port \<Rightarrow> bool \<times> port" where
  "eotLoop retry buffer late p =
     (if retry < 10 then
        (let p1 = portWrite p [EOT];
             t = now (snd (readWithTimeout p1 buffer 5000));
             current = bufferAt t buffer late;
             late' = filter (\<lambda>(s, bs). t < s) late @ lateStore p1 buffer 5000
         in case readWithTimeout p1 current 5000 of
              ((n, response, err), p') \<Rightarrow>
                if err = None \<and> length response > 0 \<and> hd response = ACK then (True, p')
                else eotLoop (retry + 1) (if response = [] then current else response) late'
                       (sleep 500 p'))
      else (False, p))"
  by pat_completeness auto
termination
  by (relation "measure (\<lambda>(retry, buffer, late, p). 10 - retry)") auto

declare eotLoop.simps [simp del]

subsubsection \<open>The whole transfer\<close>

text \<open>
  \<^verbatim>\<open>xmodemSend(port, file) (int64, error)\<close>. The model also returns the port, for its
  log of writes. \<^verbatim>\<open>startTime := time.Now()\<close> is the time of the port at the call.
\<close>

definition xmodemSend_run :: "port \<Rightarrow> firmware \<Rightarrow> (int \<times> xerror option) \<times> port" where
  "xmodemSend_run port0 f =
     (case handshakeLoop (now port0) port0 of
        (TimedOut, p1) \<Rightarrow> ((0, Some HandshakeTimeout), p1)
      | (WindowClosed, p1) \<Rightarrow> ((0, Some HandshakeFailed), p1)
      | (Negotiated, p1) \<Rightarrow>
          (case dataLoop 0 1 (replicate DATA_SIZE 0) f p1 of
             (Some e, totalBytesSent, p2) \<Rightarrow> ((totalBytesSent, Some e), p2)
           | (None, totalBytesSent, p2) \<Rightarrow>
               (case eotLoop 0 [0] [] p2 of
                  (True, p3) \<Rightarrow> ((totalBytesSent, None), p3)
                | (False, p3) \<Rightarrow> ((totalBytesSent, Some FinalAckMissing), p3))))"

definition xmodemSend :: "port \<Rightarrow> firmware \<Rightarrow> int \<times> xerror option" where
  "xmodemSend port0 f = fst (xmodemSend_run port0 f)"

subsection \<open>main\<close>



subsection \<open>Notions for stating the properties\<close>

text \<open>
  One pass of the retry loop of \<^verbatim>\<open>xmodemSend\<close>, cut out of \<open>sendBlockLoop\<close>: the
  packet is written, the reply is read and classified as the \<^verbatim>\<open>switch\<close> does, and the
  port is flushed after \<^verbatim>\<open>NAK\<close> and after an unexpected byte.
  \<open>afterAttempts blockNum dataBuffer r p\<close> is the port after \<open>r\<close> such passes from \<open>p\<close>.
\<close>

datatype reply = Ack | Nak | Can | Other | NoReply

definition classify :: "nat \<times> byte list \<times> io_error option \<Rightarrow> reply" where
  "classify r =
     (case r of (n, response, err) \<Rightarrow>
        if err = None \<and> length response > 0 then
          (if hd response = ACK then Ack
           else if hd response = NAK then Nak
           else if hd response = CAN then Can
           else Other)
        else NoReply)"

definition sendAttempt :: "byte \<Rightarrow> byte list \<Rightarrow> port \<Rightarrow> reply \<times> port" where
  "sendAttempt blockNum dataBuffer p =
     (case readWithTimeout (portWrite p (buildPacket blockNum dataBuffer)) [0] 5000 of
        (r, p') \<Rightarrow>
          (classify r,
           if classify r = Nak \<or> classify r = Other then flushSerialBuffer p' else p'))"

primrec afterAttempts :: "byte \<Rightarrow> byte list \<Rightarrow> nat \<Rightarrow> port \<Rightarrow> port" where
  "afterAttempts blockNum dataBuffer 0 p = p"
| "afterAttempts blockNum dataBuffer (Suc r) p =
     afterAttempts blockNum dataBuffer r (snd (sendAttempt blockNum dataBuffer p))"

text \<open>
  For \<open>rest\<close>, the bytes of the file not yet read, \<open>chunkPayload rest\<close> is the next
  chunk of at most 128 bytes, filled up to 128 with \<^verbatim>\<open>0x1A\<close>. \<open>blocksTrace blockNum rest ks\<close>
  is the sequence of packets in which the consecutive chunks of \<open>rest\<close>, numbered from
  \<open>blockNum\<close> on, are written \<open>ks ! 0\<close>, \<open>ks ! 1\<close>, ... times each.
\<close>

definition chunkPayload :: "byte list \<Rightarrow> byte list" where
  "chunkPayload rest = take DATA_SIZE rest @ replicate (DATA_SIZE - length rest) 0x1A"

fun blocksTrace :: "byte \<Rightarrow> byte list \<Rightarrow> nat list \<Rightarrow> byte list list" where
  "blocksTrace blockNum rest [] = []"
| "blocksTrace blockNum rest (k # ks) =
     replicate k (buildPacket blockNum (chunkPayload rest)) @
     blocksTrace (blockNum + 1) (drop DATA_SIZE rest) ks"

text \<open>
  What the receiver's next read event means to each phase. A probe of the handshake is
  \<open>accepted\<close> when its read returns, before the 1.5 s timeout, a first byte that is
  \<^verbatim>\<open>CRC_START\<close> or \<^verbatim>\<open>NAK\<close>; \<open>probeTime\<close> is the time the read of a probe takes. An
  \<^verbatim>\<open>EOT\<close> is \<open>acknowledged\<close> when its read returns, before the 5 s timeout, a first
  byte that is \<^verbatim>\<open>ACK\<close>.
\<close>

fun accepted :: "read_event \<Rightarrow> bool" where
  "accepted (d, ReadBytes (b # bs)) = (d < 1500 \<and> (b = CRC_START \<or> b = NAK))"
| "accepted (d, ReadBytes []) = False"
| "accepted (d, ReadError) = False"

definition probeTime :: "read_event \<Rightarrow> nat" where
  "probeTime ev = min (fst ev) 1500"

fun acknowledged :: "read_event \<Rightarrow> bool" where
  "acknowledged (d, ReadBytes (b # bs)) = (d < 5000 \<and> b = ACK)"
| "acknowledged (d, ReadBytes []) = False"
| "acknowledged (d, ReadError) = False"

text \<open>
  A read event \<open>carriesAck\<close> when the first byte it returns is \<^verbatim>\<open>ACK\<close>, whether the
  read returns before the timeout or after it. \<open>noAck late\<close> says that none of the stores
  \<open>late\<close> puts \<^verbatim>\<open>ACK\<close> into the first byte of the buffer.
\<close>

fun carriesAck :: "read_event \<Rightarrow> bool" where
  "carriesAck (d, ReadBytes (b # bs)) = (b = ACK)"
| "carriesAck (d, ReadBytes []) = False"
| "carriesAck (d, ReadError) = False"

definition noAck :: "late_store list \<Rightarrow> bool" where
  "noAck late = (\<forall>(s, bs)\<in>set late. bs = [] \<or> hd bs \<noteq> ACK)"

text \<open>
  Where a run of \<^verbatim>\<open>xmodemSend\<close> stands. \<open>portAtBlock port0 f m = Some p\<close> says that
  on the port \<open>port0\<close> and the file \<open>f\<close> (read without a device error) the
  handshake succeeds, the first \<open>m\<close> blocks of the file are sent and each is acknowledged,
  which leaves the port as \<open>p\<close>, and the file has a further block: the transfer of the
  first \<open>128 * m\<close> bytes alone would have passed the data loop without an error.
  \<open>replyAt blockNum dataBuffer r p\<close> is the reply to attempt \<open>r\<close> (counted from 0) of
  the block that is first attempted on the port \<open>p\<close>.
\<close>

definition portAtBlock :: "port \<Rightarrow> firmware \<Rightarrow> nat \<Rightarrow> port option" where
  "portAtBlock port0 f m =
     (case handshakeLoop (now port0) port0 of
        (Negotiated, p1) \<Rightarrow>
          if fault_after f = None \<and> DATA_SIZE * m < length (remaining f) then
            (case dataLoop 0 1 (replicate DATA_SIZE 0)
                    (f\<lparr>remaining := take (DATA_SIZE * m) (remaining f)\<rparr>) p1 of
               (None, t, p) \<Rightarrow> Some p
             | (Some e, t, p) \<Rightarrow> None)
          else None
      | (TimedOut, p1) \<Rightarrow> None
      | (WindowClosed, p1) \<Rightarrow> None)"

definition replyAt :: "byte \<Rightarrow> byte list \<Rightarrow> nat \<Rightarrow> port \<Rightarrow> reply" where
  "replyAt blockNum dataBuffer r p =
     fst (sendAttempt blockNum dataBuffer (afterAttempts blockNum dataBuffer r p))"

section \<open>Properties\<close>

subsection \<open>The checksum\<close>

lemma checksum_fold:
  "fold (\<lambda>b checksum. checksum + b) data (s :: byte) = s + calculateChecksum data"
proof (induction data arbitrary: s)
  case Nil
  show ?case by (simp add: calculateChecksum_def)
next
  case (Cons b bs)
  have "fold (\<lambda>b checksum. checksum + b) (b # bs) s = (s + b) + calculateChecksum bs"
    using Cons.IH [of "s + b"] by simp
  also have "calculateChecksum (b # bs) = b + calculateChecksum bs"
    using Cons.IH [of "0 + b"] by (simp add: calculateChecksum_def)
  then have "(s + b) + calculateChecksum bs = s + calculateChecksum (b # bs)"
    by (simp add: add.assoc)
  finally show ?case .
qed

lemma calculateChecksum_Nil: "calculateChecksum [] = 0"
  by (simp add: calculateChecksum_def)

lemma calculateChecksum_Cons: "calculateChecksum (b # bs) = b + calculateChecksum bs"
  using checksum_fold [of bs "0 + b"] by (simp add: calculateChecksum_def)

lemma calculateChecksum_of_nat:
  "calculateChecksum data = word_of_nat (sum_list (map unat data))"
  by (induction data) (simp_all add: calculateChecksum_Cons calculateChecksum_Nil)

text \<open>
  Claim C1. For every byte sequence of length 128, the checksum that
  \<^verbatim>\<open>calculateChecksum\<close> returns, read as a number, is the sum of all the bytes modulo
  256. The function is a total function of its argument alone: it has no state and no
  failure. The all-zero and the all-0xFF block are evaluated in the witness.
\<close>

theorem calculateChecksum_sum_mod_256:
  "length data = 128 \<Longrightarrow> unat (calculateChecksum data) = sum_list (map unat data) mod 256"
  by (simp add: calculateChecksum_of_nat unat_of_nat)

theorem calculateChecksum_sum_mod_256_witness:
  "length (replicate 128 (0xFF :: byte)) = 128 \<and>
   unat (calculateChecksum (replicate 128 0xFF)) =
     sum_list (map unat (replicate 128 (0xFF :: byte))) mod 256 \<and>
   calculateChecksum (replicate 128 0xFF) = 0x80 \<and>
   length (replicate 128 (0 :: byte)) = 128 \<and>
   unat (calculateChecksum (replicate 128 0)) =
     sum_list (map unat (replicate 128 (0 :: byte))) mod 256 \<and>
   calculateChecksum (replicate 128 0) = 0"
proof -
  have l1: "length (replicate 128 (0xFF :: byte)) = 128" by simp
  have l0: "length (replicate 128 (0 :: byte)) = 128" by simp
  have c1: "calculateChecksum (replicate 128 0xFF) = 0x80" by code_simp
  have c0: "calculateChecksum (replicate 128 0) = 0" by code_simp
  show ?thesis
    using l1 calculateChecksum_sum_mod_256 [OF l1] c1
          l0 calculateChecksum_sum_mod_256 [OF l0] c0
    by blast
qed

text \<open>
  Claim C10. \<^verbatim>\<open>calculateChecksum\<close> is defined on byte sequences of every length. It
  returns 0 for the empty sequence, and the checksum of a concatenation is the sum of the
  two checksums in 8-bit arithmetic, that is, modulo 256.
\<close>

theorem calculateChecksum_homomorphism:
  "calculateChecksum [] = 0 \<and>
   calculateChecksum (a @ b) = calculateChecksum a + calculateChecksum b \<and>
   unat (calculateChecksum (a @ b)) =
     (unat (calculateChecksum a) + unat (calculateChecksum b)) mod 256"
proof -
  have e: "calculateChecksum [] = 0" by (simp add: calculateChecksum_def)
  have h: "calculateChecksum (a @ b) = calculateChecksum a + calculateChecksum b"
    using checksum_fold [of b "calculateChecksum a"] by (simp add: calculateChecksum_def)
  have "unat (calculateChecksum a + calculateChecksum b) =
        (unat (calculateChecksum a) + unat (calculateChecksum b)) mod 256"
    by (simp add: unat_word_ariths)
  with e h show ?thesis by simp
qed

subsection \<open>The writes of the loops\<close>

lemma flushLoop_written: "written (flushLoop buffer p) = written p"
proof (induction buffer p rule: flushLoop.induct)
  case (1 buffer p)
  show ?case
    apply (subst flushLoop.simps)
    apply (auto split: prod.splits simp: readWithTimeout_written)
    using "1" readWithTimeout_written apply fastforce+
    done
qed

lemma flushSerialBuffer_written: "written (flushSerialBuffer p) = written p"
  by (simp add: flushSerialBuffer_def flushLoop_written)

lemma sendAttempt_written:
  "written (snd (sendAttempt blockNum dataBuffer p)) =
   written p @ [buildPacket blockNum dataBuffer]"
  by (auto simp: sendAttempt_def flushSerialBuffer_written portWrite_def
           split: prod.splits dest!: readWithTimeout_written)

lemma sendBlockLoop_unfold:
  "sendBlockLoop retry blockNum dataBuffer p =
     (if retry < MAX_RETRIES then
        (case sendAttempt blockNum dataBuffer p of
           (Ack, p') \<Rightarrow> (NextBlock, p')
         | (Can, p') \<Rightarrow> (Cancelled, p')
         | (_, p') \<Rightarrow> sendBlockLoop (retry + 1) blockNum dataBuffer p')
      else (Exhausted, p))"
  apply (subst sendBlockLoop.simps)
  apply (auto simp: sendAttempt_def classify_def xmodem_consts split: prod.splits)
  done

lemma afterAttempts_written:
  "written (afterAttempts bn buf r p) = written p @ replicate r (buildPacket bn buf)"
  by (induction r arbitrary: p) (simp_all add: sendAttempt_written replicate_append_same)

lemma sendBlockLoop_trace:
  "\<exists>k. written (snd (sendBlockLoop retry bn buf p)) =
         written p @ replicate k (buildPacket bn buf) \<and>
       k \<le> MAX_RETRIES - retry \<and> (retry < MAX_RETRIES \<longrightarrow> 1 \<le> k) \<and>
       (fst (sendBlockLoop retry bn buf p) = Exhausted \<longrightarrow> k = MAX_RETRIES - retry)"
proof (induction j \<equiv> "MAX_RETRIES - retry" arbitrary: retry p)
  case 0
  then have "\<not> retry < MAX_RETRIES" by simp
  then show ?case by (subst (1 2) sendBlockLoop_unfold) simp
next
  case (Suc j)
  then have lt: "retry < MAX_RETRIES" and j: "j = MAX_RETRIES - (retry + 1)" by simp_all
  obtain c p' where a: "sendAttempt bn buf p = (c, p')" by (cases "sendAttempt bn buf p")
  have w: "written p' = written p @ [buildPacket bn buf]"
    using sendAttempt_written [of bn buf p] a by simp
  show ?case
  proof (cases "c = Ack \<or> c = Can")
    case True
    then have "snd (sendBlockLoop retry bn buf p) = p'"
      and "fst (sendBlockLoop retry bn buf p) \<noteq> Exhausted"
      using lt a by (subst sendBlockLoop_unfold; auto)+
    with w lt show ?thesis by (intro exI [of _ 1]) auto
  next
    case False
    then have e: "sendBlockLoop retry bn buf p = sendBlockLoop (retry + 1) bn buf p'"
      using lt a by (subst sendBlockLoop_unfold) (cases c; simp)
    from Suc.hyps(1) [OF j, of p'] obtain k where
      k: "written (snd (sendBlockLoop (retry + 1) bn buf p')) =
            written p' @ replicate k (buildPacket bn buf)"
         "k \<le> MAX_RETRIES - (retry + 1)"
         "fst (sendBlockLoop (retry + 1) bn buf p') = Exhausted \<longrightarrow>
            k = MAX_RETRIES - (retry + 1)"
      by blast
    show ?thesis
      using k w lt unfolding e by (intro exI [of _ "Suc k"]) auto
  qed
qed

subsection \<open>The data loop\<close>

lemma length_chunkPayload: "length (chunkPayload rest) = DATA_SIZE"
  by (simp add: chunkPayload_def)

lemma ReadFull_cases:
  assumes "ReadFull f buf = ((n, b, er), f')" "length buf = DATA_SIZE"
  shows "(er = Some ErrDevice \<and> device_fault f) \<or>
         (er = Some EOF \<and> remaining f = [] \<and> \<not> device_fault f) \<or>
         ((er = None \<or> er = Some ErrUnexpectedEOF) \<and> \<not> device_fault f \<and> remaining f \<noteq> [] \<and>
          n = min DATA_SIZE (length (remaining f)) \<and>
          padBlock n b = chunkPayload (remaining f) \<and>
          remaining f' = drop DATA_SIZE (remaining f) \<and>
          (er = Some ErrUnexpectedEOF \<longleftrightarrow> length (remaining f) < DATA_SIZE))"
  using assms
  by (auto simp: ReadFull_def Let_def padBlock_def chunkPayload_def split: if_splits)

lemma dataLoop_EOF:
  "ReadFull f buf = ((n, b, Some EOF), f') \<Longrightarrow> dataLoop tot bn buf f p = (None, tot, p)"
  by (subst dataLoop.simps) simp

lemma dataLoop_ErrDevice:
  "ReadFull f buf = ((n, b, Some ErrDevice), f') \<Longrightarrow>
   dataLoop tot bn buf f p = (Some FileReadError, tot, p)"
  by (subst dataLoop.simps) simp

lemma dataLoop_block:
  "ReadFull f buf = ((n, b, er), f') \<Longrightarrow> er = None \<or> er = Some ErrUnexpectedEOF \<Longrightarrow>
   dataLoop tot bn buf f p =
     (case sendBlockLoop 0 bn (padBlock n b) p of
        (NextBlock, p') \<Rightarrow> dataLoop (tot + int n) (bn + 1) (padBlock n b) f' p'
      | (Cancelled, p') \<Rightarrow> (Some TransferCancelled, tot, p')
      | (Exhausted, p') \<Rightarrow> (Some (MaxRetriesReached bn), tot, p'))"
  by (subst dataLoop.simps) auto

lemma dataLoop_trace:
  assumes "length buf = DATA_SIZE" "dataLoop tot bn buf f p = (e, t', p')"
  shows "\<exists>ks. written p' = written p @ blocksTrace bn (remaining f) ks \<and>
           (\<forall>k\<in>set ks. 1 \<le> k \<and> k \<le> MAX_RETRIES) \<and>
           DATA_SIZE * length ks < length (remaining f) + DATA_SIZE \<and>
           (e = None \<longrightarrow> t' = tot + int (length (remaining f)) \<and>
                       length (remaining f) \<le> DATA_SIZE * length ks) \<and>
           (e = Some TransferCancelled \<longrightarrow>
              ks \<noteq> [] \<and> t' = tot + int (DATA_SIZE * (length ks - 1))) \<and>
           (\<forall>b. e = Some (MaxRetriesReached b) \<longrightarrow>
              ks \<noteq> [] \<and> last ks = MAX_RETRIES \<and> b = bn + of_nat (length ks - 1) \<and>
              t' = tot + int (DATA_SIZE * (length ks - 1))) \<and>
           (e = Some FileReadError \<longrightarrow> t' = tot + int (DATA_SIZE * length ks) \<and>
              DATA_SIZE * length ks < length (remaining f)) \<and>
           e \<noteq> Some HandshakeTimeout \<and> e \<noteq> Some HandshakeFailed \<and> e \<noteq> Some FinalAckMissing"
  using assms
proof (induction "length (remaining f)" arbitrary: tot bn buf f p rule: less_induct)
  case less
  obtain n b er f' where rf: "ReadFull f buf = ((n, b, er), f')"
    by (metis prod.exhaust)
  from ReadFull_cases [OF rf less.prems(1)]
  consider (dev) "er = Some ErrDevice" "device_fault f"
    | (eof) "er = Some EOF" "remaining f = []"
    | (blk) "er = None \<or> er = Some ErrUnexpectedEOF" "remaining f \<noteq> []"
        "n = min DATA_SIZE (length (remaining f))"
        "padBlock n b = chunkPayload (remaining f)"
        "remaining f' = drop DATA_SIZE (remaining f)"
        "er = Some ErrUnexpectedEOF \<longleftrightarrow> length (remaining f) < DATA_SIZE"
    by blast
  then show ?case
  proof cases
    case dev
    with rf less.prems(2) have "e = Some FileReadError" "t' = tot" "p' = p"
      by (simp_all add: dataLoop_ErrDevice)
    then show ?thesis using dev(2)
      by (intro exI [of _ "[]"]) (auto simp: DATA_SIZE_def device_fault_def split: option.splits)
  next
    case eof
    with rf less.prems(2) have "e = None" "t' = tot" "p' = p"
      by (simp_all add: dataLoop_EOF)
    then show ?thesis using eof by (intro exI [of _ "[]"]) (simp add: DATA_SIZE_def)
  next
    case blk
    let ?blk = "chunkPayload (remaining f)"
    obtain x q where sb: "sendBlockLoop 0 bn ?blk p = (x, q)"
      by (cases "sendBlockLoop 0 bn ?blk p")
    from sendBlockLoop_trace [of 0 bn ?blk p] sb obtain k where
      k: "written q = written p @ replicate k (buildPacket bn ?blk)" "k \<le> MAX_RETRIES" "1 \<le> k"
         "x = Exhausted \<longrightarrow> k = MAX_RETRIES"
      by (auto simp: MAX_RETRIES_def)
    have dl: "dataLoop tot bn buf f p =
       (case (x, q) of
        (NextBlock, p') \<Rightarrow> dataLoop (tot + int n) (bn + 1) ?blk f' p'
      | (Cancelled, p') \<Rightarrow> (Some TransferCancelled, tot, p')
      | (Exhausted, p') \<Rightarrow> (Some (MaxRetriesReached bn), tot, p'))"
      using dataLoop_block [OF rf blk(1), of tot bn p] sb unfolding blk(4) by simp
    show ?thesis
    proof (cases x)
      case Cancelled
      with dl less.prems(2) have "e = Some TransferCancelled" "t' = tot" "p' = q" by simp_all
      then show ?thesis using k blk(2)
        by (intro exI [of _ "[k]"]) (auto simp: DATA_SIZE_def)
    next
      case Exhausted
      with dl less.prems(2) have "e = Some (MaxRetriesReached bn)" "t' = tot" "p' = q"
        by simp_all
      then show ?thesis using k blk(2) Exhausted
        by (intro exI [of _ "[k]"]) (auto simp: DATA_SIZE_def)
    next
      case NextBlock
      with dl less.prems(2) have
        rec: "dataLoop (tot + int n) (bn + 1) ?blk f' q = (e, t', p')" by simp
      have shorter: "length (remaining f') < length (remaining f)"
        using blk(2,5) by (simp add: DATA_SIZE_def)
      from less.hyps [OF shorter length_chunkPayload rec] obtain ks where
        ks: "written p' = written q @ blocksTrace (bn + 1) (remaining f') ks"
           "\<forall>k\<in>set ks. 1 \<le> k \<and> k \<le> MAX_RETRIES"
           "DATA_SIZE * length ks < length (remaining f') + DATA_SIZE"
           "e = None \<longrightarrow> t' = tot + int n + int (length (remaining f')) \<and>
                       length (remaining f') \<le> DATA_SIZE * length ks"
           "e = Some TransferCancelled \<longrightarrow>
              ks \<noteq> [] \<and> t' = tot + int n + int (DATA_SIZE * (length ks - 1))"
           "\<forall>b. e = Some (MaxRetriesReached b) \<longrightarrow>
              ks \<noteq> [] \<and> last ks = MAX_RETRIES \<and> b = bn + 1 + of_nat (length ks - 1) \<and>
              t' = tot + int n + int (DATA_SIZE * (length ks - 1))"
           "e = Some FileReadError \<longrightarrow> t' = tot + int n + int (DATA_SIZE * length ks) \<and>
              DATA_SIZE * length ks < length (remaining f')"
           "e \<noteq> Some HandshakeTimeout \<and> e \<noteq> Some HandshakeFailed \<and> e \<noteq> Some FinalAckMissing"
        by blast
      have w: "written p' = written p @ blocksTrace bn (remaining f) (k # ks)"
        using ks(1) k(1) blk(5) by simp
      have full: "ks \<noteq> [] \<Longrightarrow> n = DATA_SIZE"
        using ks(3) blk(3,5) by (cases ks) (auto simp: DATA_SIZE_def min_def split: if_splits)
      have fre: "e = Some FileReadError \<Longrightarrow> n = DATA_SIZE"
        using ks(7) blk(3,5) by (auto simp: DATA_SIZE_def min_def)
      have c5: "e = Some TransferCancelled \<longrightarrow>
              k # ks \<noteq> [] \<and> t' = tot + int (DATA_SIZE * (length (k # ks) - 1))"
      proof
        assume a: "e = Some TransferCancelled"
        with ks(5) have ne: "ks \<noteq> []"
          and t: "t' = tot + int n + int (DATA_SIZE * (length ks - 1))" by simp_all
        from ne obtain a' l' where "ks = a' # l'" by (cases ks) auto
        with t full [OF ne]
        show "k # ks \<noteq> [] \<and> t' = tot + int (DATA_SIZE * (length (k # ks) - 1))"
          by simp
      qed
      have c6: "\<forall>b. e = Some (MaxRetriesReached b) \<longrightarrow>
              k # ks \<noteq> [] \<and> last (k # ks) = MAX_RETRIES \<and>
              b = bn + of_nat (length (k # ks) - 1) \<and>
              t' = tot + int (DATA_SIZE * (length (k # ks) - 1))"
      proof (intro allI impI)
        fix b
        assume a: "e = Some (MaxRetriesReached b)"
        from ks(6) [rule_format, OF a] have ne: "ks \<noteq> []"
          and l: "last ks = MAX_RETRIES"
          and b: "b = bn + 1 + of_nat (length ks - 1)"
          and t: "t' = tot + int n + int (DATA_SIZE * (length ks - 1))" by simp_all
        from ne obtain a' l' where kl: "ks = a' # l'" by (cases ks) auto
        have "b = bn + of_nat (length (k # ks) - 1)"
          using b kl by simp
        moreover have "t' = tot + int (DATA_SIZE * (length (k # ks) - 1))"
          using t full [OF ne] kl by simp
        ultimately
        show "k # ks \<noteq> [] \<and> last (k # ks) = MAX_RETRIES \<and>
              b = bn + of_nat (length (k # ks) - 1) \<and>
              t' = tot + int (DATA_SIZE * (length (k # ks) - 1))"
          using l ne by simp
      qed
      show ?thesis
        apply (intro exI [of _ "k # ks"] conjI)
        subgoal using w by simp
        subgoal using ks(2) k by simp
        subgoal using ks(3) blk(2,5)
          by (cases "length (remaining f) < DATA_SIZE") (auto simp: DATA_SIZE_def)
        subgoal using ks(4) blk(3,5) by (auto simp: DATA_SIZE_def min_def)
        subgoal using c5 .
        subgoal using c6 .
        subgoal using ks(7) fre blk(5) by (auto simp: DATA_SIZE_def)
        subgoal using ks(8) by simp
        subgoal using ks(8) by simp
        subgoal using ks(8) by simp
        done
    qed
  qed
qed

subsection \<open>The handshake loop\<close>

lemma handshakeAttempt_Nil:
  "script p = [] \<Longrightarrow>
   handshakeAttempt p = ((0, [], Some IoEOF), p\<lparr>written := written p @ [probe], now := now p + 1500\<rparr>)"
  by (simp add: handshakeAttempt_def readWithTimeout_def portWrite_def)

lemma handshakeAttempt_Cons:
  assumes "script p = ev # rest" "handshakeAttempt p = ((n, response, err), p')"
  shows "p' = p\<lparr>script := rest, written := written p @ [probe], now := now p + probeTime ev\<rparr>"
    and "accepted ev \<longleftrightarrow>
           err = None \<and> length response > 0 \<and> (hd response = CRC_START \<or> hd response = NAK)"
  using assms
  by (cases ev rule: accepted.cases;
      auto simp: handshakeAttempt_def readWithTimeout_def portWrite_def probeTime_def
        Let_def xmodem_consts min_def split: if_splits)+

lemma handshakeLoop_step:
  assumes "script p = ev # rest" "now p - st < HANDSHAKE_TIMEOUT"
  shows "handshakeLoop st p =
     (let p' = p\<lparr>script := rest, written := written p @ [probe], now := now p + probeTime ev\<rparr>
      in if accepted ev then (Negotiated, p')
         else if now p' - st \<ge> HANDSHAKE_TIMEOUT then (TimedOut, p')
         else handshakeLoop st p')"
proof -
  obtain n response err p' where a: "handshakeAttempt p = ((n, response, err), p')"
    by (metis prod.exhaust)
  note c = handshakeAttempt_Cons [OF assms(1) a]
  show ?thesis
    apply (subst handshakeLoop.simps)
    using assms(2) a c(2) unfolding c(1) [symmetric] Let_def
    by auto
qed

lemma handshakeLoop_silent_step:
  assumes "script p = []" "now p - st < HANDSHAKE_TIMEOUT"
  shows "handshakeLoop st p =
     (let p' = p\<lparr>written := written p @ [probe], now := now p + 1500\<rparr>
      in if now p' - st \<ge> HANDSHAKE_TIMEOUT then (TimedOut, p')
         else handshakeLoop st p')"
  apply (subst handshakeLoop.simps)
  using assms by (simp add: handshakeAttempt_Nil Let_def)

lemma handshake_silent:
  assumes "script p = []" "now p - st < HANDSHAKE_TIMEOUT"
  shows "\<exists>k p'. handshakeLoop st p = (TimedOut, p') \<and> 1 \<le> k \<and>
           written p' = written p @ replicate k probe \<and> script p' = [] \<and>
           HANDSHAKE_TIMEOUT \<le> now p' - st"
  using assms
proof (induction j \<equiv> "HANDSHAKE_TIMEOUT + st - now p" arbitrary: p rule: less_induct)
  case less
  let ?p' = "p\<lparr>written := written p @ [probe], now := now p + 1500\<rparr>"
  show ?case
  proof (cases "now ?p' - st \<ge> HANDSHAKE_TIMEOUT")
    case True
    then have "handshakeLoop st p = (TimedOut, ?p')"
      using handshakeLoop_silent_step [OF less.prems] by (simp add: Let_def)
    then show ?thesis using True less.prems(1)
      by (intro exI [of _ 1] exI [of _ ?p']) simp
  next
    case False
    then have e: "handshakeLoop st p = handshakeLoop st ?p'"
      using handshakeLoop_silent_step [OF less.prems] by (simp add: Let_def)
    have "HANDSHAKE_TIMEOUT + st - now ?p' < HANDSHAKE_TIMEOUT + st - now p"
      using less.prems(2) False by simp
    from less.hyps [OF this] less.prems(1) False obtain k p' where
      "handshakeLoop st ?p' = (TimedOut, p')" "1 \<le> k"
      "written p' = written ?p' @ replicate k probe" "script p' = []"
      "HANDSHAKE_TIMEOUT \<le> now p' - st"
      by auto
    then show ?thesis unfolding e
      by (intro exI [of _ "Suc k"] exI [of _ p']) (simp add: replicate_append_same)
  qed
qed


lemma handshake_negotiated:
  assumes "script p = pre @ ev # post" "accepted ev" "\<forall>e\<in>set pre. \<not> accepted e"
    "(now p - st) + sum_list (map probeTime pre) < HANDSHAKE_TIMEOUT"
  shows "handshakeLoop st p =
     (Negotiated, p\<lparr>script := post,
                   written := written p @ replicate (Suc (length pre)) probe,
                   now := now p + sum_list (map probeTime pre) + probeTime ev\<rparr>)"
  using assms
proof (induction pre arbitrary: p)
  case Nil
  then show ?case
    using handshakeLoop_step [of p ev post st] by (simp add: Let_def)
next
  case (Cons e pre)
  let ?p' = "p\<lparr>script := pre @ ev # post, written := written p @ [probe],
               now := now p + probeTime e\<rparr>"
  have lt: "now p - st < HANDSHAKE_TIMEOUT" using Cons.prems(4) by simp
  have lt': "\<not> HANDSHAKE_TIMEOUT \<le> now ?p' - st" using Cons.prems(4) by simp
  have ne: "\<not> accepted e" using Cons.prems(3) by simp
  have e: "handshakeLoop st p = handshakeLoop st ?p'"
    using handshakeLoop_step [of p e "pre @ ev # post" st] Cons.prems(1) lt lt' ne
    by (simp add: Let_def)
  have "handshakeLoop st ?p' =
     (Negotiated, ?p'\<lparr>script := post,
                   written := written ?p' @ replicate (Suc (length pre)) probe,
                   now := now ?p' + sum_list (map probeTime pre) + probeTime ev\<rparr>)"
    using Cons.prems by (intro Cons.IH) auto
  then show ?case unfolding e by (simp add: add.assoc)
qed

lemma handshake_timed_out:
  assumes "now p - st < HANDSHAKE_TIMEOUT" "st \<le> now p"
    "\<not> (\<exists>pre ev post. script p = pre @ ev # post \<and> accepted ev \<and>
          (\<forall>e\<in>set pre. \<not> accepted e) \<and>
          (now p - st) + sum_list (map probeTime pre) < HANDSHAKE_TIMEOUT)"
  shows "\<exists>k p'. handshakeLoop st p = (TimedOut, p') \<and> 1 \<le> k \<and>
           written p' = written p @ replicate k probe \<and>
           HANDSHAKE_TIMEOUT \<le> now p' - st"
  using assms
proof (induction es \<equiv> "script p" arbitrary: p)
  case Nil
  from handshake_silent [OF Nil(1) [symmetric] Nil(2)] show ?case by blast
next
  case (Cons e es)
  let ?p' = "p\<lparr>script := es, written := written p @ [probe], now := now p + probeTime e\<rparr>"
  have sc: "script p = e # es" using Cons.hyps(2) by simp
  have ne: "\<not> accepted e"
  proof
    assume "accepted e"
    with sc Cons.prems(1) have "script p = [] @ e # es \<and> accepted e \<and>
          (\<forall>e\<in>set []. \<not> accepted e) \<and>
          (now p - st) + sum_list (map probeTime []) < HANDSHAKE_TIMEOUT" by simp
    with Cons.prems(3) show False by blast
  qed
  show ?case
  proof (cases "HANDSHAKE_TIMEOUT \<le> now ?p' - st")
    case True
    then have "handshakeLoop st p = (TimedOut, ?p')"
      using handshakeLoop_step [OF sc Cons.prems(1)] ne by (simp add: Let_def)
    then show ?thesis using True by (intro exI [of _ 1] exI [of _ ?p']) simp
  next
    case False
    then have e: "handshakeLoop st p = handshakeLoop st ?p'"
      using handshakeLoop_step [OF sc Cons.prems(1)] ne by (simp add: Let_def)
    have no: "\<not> (\<exists>pre ev post. script ?p' = pre @ ev # post \<and> accepted ev \<and>
          (\<forall>e\<in>set pre. \<not> accepted e) \<and>
          (now ?p' - st) + sum_list (map probeTime pre) < HANDSHAKE_TIMEOUT)"
    proof
      assume "\<exists>pre ev post. script ?p' = pre @ ev # post \<and> accepted ev \<and>
          (\<forall>e\<in>set pre. \<not> accepted e) \<and>
          (now ?p' - st) + sum_list (map probeTime pre) < HANDSHAKE_TIMEOUT"
      then obtain pre ev post where d: "es = pre @ ev # post" "accepted ev"
          "\<forall>e\<in>set pre. \<not> accepted e"
          "(now ?p' - st) + sum_list (map probeTime pre) < HANDSHAKE_TIMEOUT"
        by auto
      have "script p = (e # pre) @ ev # post \<and> accepted ev \<and>
          (\<forall>e\<in>set (e # pre). \<not> accepted e) \<and>
          (now p - st) + sum_list (map probeTime (e # pre)) < HANDSHAKE_TIMEOUT"
        using d sc ne Cons.prems(2) by simp
      with Cons.prems(3) show False by blast
    qed
    have "\<exists>k p'. handshakeLoop st ?p' = (TimedOut, p') \<and> 1 \<le> k \<and>
           written p' = written ?p' @ replicate k probe \<and>
           HANDSHAKE_TIMEOUT \<le> now p' - st"
      using False Cons.prems(2) no by (intro Cons.hyps(1)) auto
    then obtain k p' where "handshakeLoop st ?p' = (TimedOut, p')"
      "written p' = written ?p' @ replicate k probe" "HANDSHAKE_TIMEOUT \<le> now p' - st"
      by blast
    then show ?thesis unfolding e
      by (intro exI [of _ "Suc k"] exI [of _ p']) (simp add: replicate_append_same)
  qed
qed


subsection \<open>The end-of-transmission loop\<close>

lemma readWithTimeout_now:
  "readWithTimeout p buf t = (r, p') \<Longrightarrow> now p \<le> now p' \<and> now p' \<le> now p + t"
  by (auto simp: readWithTimeout_def Let_def split: list.splits if_splits read_result.splits)

lemma stores_nonempty:
  "buffer \<noteq> [] \<Longrightarrow> fold (\<lambda>(s, bs) buf. bs @ drop (length bs) buf) xs buffer \<noteq> []"
  by (induction xs arbitrary: buffer) (auto split: prod.splits)

lemma bufferAt_nonempty: "buffer \<noteq> [] \<Longrightarrow> bufferAt t buffer late \<noteq> []"
  unfolding bufferAt_def by (rule stores_nonempty)

lemma stores_noAck:
  "buffer \<noteq> [] \<Longrightarrow> hd buffer \<noteq> ACK \<Longrightarrow> noAck xs \<Longrightarrow>
   hd (fold (\<lambda>(s, bs) buf. bs @ drop (length bs) buf) xs buffer) \<noteq> ACK"
proof (induction xs arbitrary: buffer)
  case Nil
  then show ?case by simp
next
  case (Cons x xs)
  obtain s bs where x: "x = (s, bs)" by (cases x)
  have "bs @ drop (length bs) buffer \<noteq> []" "hd (bs @ drop (length bs) buffer) \<noteq> ACK"
    using Cons.prems x by (cases bs; auto simp: noAck_def)+
  moreover have "noAck xs" using Cons.prems(3) by (simp add: noAck_def)
  ultimately show ?case using Cons.IH x by simp
qed

lemma bufferAt_noAck:
  "buffer \<noteq> [] \<Longrightarrow> hd buffer \<noteq> ACK \<Longrightarrow> noAck late \<Longrightarrow> hd (bufferAt t buffer late) \<noteq> ACK"
  unfolding bufferAt_def by (rule stores_noAck) (auto simp: noAck_def)

lemma lateStore_noAck:
  "script p = [] \<or> \<not> carriesAck (hd (script p)) \<Longrightarrow> buf \<noteq> [] \<Longrightarrow> noAck (lateStore p buf t)"
  by (cases "script p"; cases "hd (script p)" rule: carriesAck.cases)
     (auto simp: lateStore_def noAck_def)

lemma readWithTimeout_hd:
  assumes "readWithTimeout p buf t = ((n, resp, err), q)" "resp \<noteq> []" "buf \<noteq> []"
    "hd resp = ACK" "script p = [] \<or> \<not> carriesAck (hd (script p))"
  shows "hd buf = ACK"
proof (cases "script p")
  case Nil
  then show ?thesis using assms by (simp add: readWithTimeout_def)
next
  case (Cons ev rest)
  obtain c cs where c: "buf = c # cs" using assms(3) by (cases buf) auto
  from Cons assms(5) have "\<not> carriesAck ev" by simp
  then show ?thesis using assms(1,2,4) Cons c
    by (cases ev rule: carriesAck.cases)
       (auto simp: readWithTimeout_def Let_def min_def split: if_splits)
qed

lemma eotLoop_step:
  assumes "retry < 10" "buffer \<noteq> []"
  shows "\<exists>p1 buffer' late'. script p1 = tl (script p) \<and> written p1 = written p @ [[EOT]] \<and>
           buffer' \<noteq> [] \<and>
           (eotLoop retry buffer late p = (True, p1) \<or>
            eotLoop retry buffer late p = eotLoop (retry + 1) buffer' late' p1)"
proof -
  let ?p1 = "portWrite p [EOT]"
  let ?t = "now (snd (readWithTimeout ?p1 buffer 5000))"
  let ?current = "bufferAt ?t buffer late"
  let ?late = "filter (\<lambda>(s, bs). ?t < s) late @ lateStore ?p1 buffer 5000"
  obtain n resp err q where rd: "readWithTimeout ?p1 ?current 5000 = ((n, resp, err), q)"
    by (metis prod.exhaust)
  have q: "script q = tl (script p)" "written q = written p @ [[EOT]]"
    using readWithTimeout_script [OF rd] readWithTimeout_written [OF rd]
    by (simp_all add: portWrite_def)
  let ?buffer = "if resp = [] then ?current else resp"
  have ne: "?buffer \<noteq> []" using bufferAt_nonempty [OF assms(2)] by simp
  have "eotLoop retry buffer late p =
          (if err = None \<and> length resp > 0 \<and> hd resp = ACK then (True, q)
           else eotLoop (retry + 1) ?buffer ?late (sleep 500 q))"
    apply (subst eotLoop.simps)
    using assms(1) rd by (simp add: Let_def)
  then have "eotLoop retry buffer late p = (True, q) \<or>
             eotLoop retry buffer late p = eotLoop (retry + 1) ?buffer ?late (sleep 500 q)"
    by (cases "err = None \<and> length resp > 0 \<and> hd resp = ACK") simp_all
  then show ?thesis
  proof
    assume "eotLoop retry buffer late p = (True, q)"
    then show ?thesis using q assms(2) by (intro exI [of _ q] exI [of _ buffer]) simp
  next
    assume "eotLoop retry buffer late p = eotLoop (retry + 1) ?buffer ?late (sleep 500 q)"
    then show ?thesis using q ne
      by (intro exI [of _ "sleep 500 q"] exI [of _ ?buffer] exI [of _ ?late])
         (simp add: sleep_def)
  qed
qed

lemma eotLoop_step_ack:
  assumes "retry < 10" "script p = ev # rest" "acknowledged ev" "buffer \<noteq> []"
  shows "eotLoop retry buffer late p =
     (True, p\<lparr>script := rest, written := written p @ [[EOT]], now := now p + fst ev\<rparr>)"
proof -
  obtain d bs where ev: "ev = (d, ReadBytes (ACK # bs))" "d < 5000"
    using assms(3) by (cases ev rule: acknowledged.cases) auto
  have "bufferAt (now p + d) buffer late \<noteq> []" by (rule bufferAt_nonempty [OF assms(4)])
  then obtain c cs where c: "bufferAt (now p + d) buffer late = c # cs"
    by (meson list.exhaust)
  show ?thesis
    apply (subst eotLoop.simps)
    using assms(1,2) ev c
    by (simp add: readWithTimeout_def portWrite_def Let_def)
qed

lemma eotLoop_step_retry:
  assumes "retry < 10" "buffer \<noteq> []" "hd buffer \<noteq> ACK" "noAck late"
    "script p = [] \<or> \<not> carriesAck (hd (script p))"
  shows "\<exists>buffer' late' p1. buffer' \<noteq> [] \<and> hd buffer' \<noteq> ACK \<and> noAck late' \<and>
           eotLoop retry buffer late p = eotLoop (retry + 1) buffer' late' p1 \<and>
           script p1 = tl (script p) \<and> written p1 = written p @ [[EOT]] \<and>
           now p + 500 \<le> now p1 \<and> now p1 \<le> now p + 5500"
proof -
  let ?p1 = "portWrite p [EOT]"
  let ?t = "now (snd (readWithTimeout ?p1 buffer 5000))"
  let ?current = "bufferAt ?t buffer late"
  let ?late = "filter (\<lambda>(s, bs). ?t < s) late @ lateStore ?p1 buffer 5000"
  obtain n resp err q where rd: "readWithTimeout ?p1 ?current 5000 = ((n, resp, err), q)"
    by (metis prod.exhaust)
  have q: "script q = tl (script p)" "written q = written p @ [[EOT]]"
    using readWithTimeout_script [OF rd] readWithTimeout_written [OF rd]
    by (simp_all add: portWrite_def)
  have t: "now p \<le> now q" "now q \<le> now p + 5000"
    using readWithTimeout_now [OF rd] by (simp_all add: portWrite_def)
  have cur: "?current \<noteq> []" "hd ?current \<noteq> ACK"
    using bufferAt_nonempty [OF assms(2)] bufferAt_noAck [OF assms(2,3,4)] by simp_all
  then obtain c cs where c: "?current = c # cs" "c \<noteq> ACK" by (cases ?current) auto
  let ?buffer = "if resp = [] then ?current else resp"
  have "script ?p1 = [] \<or> \<not> carriesAck (hd (script ?p1))"
    using assms(5) by (simp add: portWrite_def)
  from readWithTimeout_hd [OF rd _ cur(1) _ this] cur(2)
  have hdr: "resp \<noteq> [] \<Longrightarrow> hd resp \<noteq> ACK" by blast
  have b: "?buffer \<noteq> []" "hd ?buffer \<noteq> ACK" using cur hdr by auto
  have "noAck (lateStore ?p1 buffer 5000)"
    using assms(5) assms(2) by (intro lateStore_noAck) (simp_all add: portWrite_def)
  then have l: "noAck ?late" using assms(4) by (auto simp: noAck_def)
  have "eotLoop retry buffer late p = eotLoop (retry + 1) ?buffer ?late (sleep 500 q)"
    apply (subst eotLoop.simps)
    using assms(1) rd hdr by (auto simp: Let_def)
  then show ?thesis
    using b l q t
    by (intro exI [of _ ?buffer] exI [of _ ?late] exI [of _ "sleep 500 q"]) (simp add: sleep_def)
qed

lemma eot_acknowledged:
  assumes "script p = pre @ ev # post" "acknowledged ev" "retry + length pre < 10"
    "buffer \<noteq> []"
  shows "\<exists>e p'. eotLoop retry buffer late p = (True, p') \<and> 1 \<le> e \<and> e \<le> Suc (length pre) \<and>
           written p' = written p @ replicate e [EOT]"
  using assms
proof (induction pre arbitrary: retry buffer late p)
  case Nil
  then show ?case using eotLoop_step_ack [of retry p ev post buffer late]
    by (intro exI [of _ 1]) simp
next
  case (Cons x pre)
  from eotLoop_step [OF _ Cons.prems(4), of retry p late] Cons.prems(3)
  obtain p1 buffer' late' where p1: "script p1 = tl (script p)" "written p1 = written p @ [[EOT]]"
      "buffer' \<noteq> []"
    and e: "eotLoop retry buffer late p = (True, p1) \<or>
            eotLoop retry buffer late p = eotLoop (retry + 1) buffer' late' p1"
    by auto
  from e show ?case
  proof
    assume "eotLoop retry buffer late p = (True, p1)"
    then show ?thesis using p1 by (intro exI [of _ 1] exI [of _ p1]) simp
  next
    assume r: "eotLoop retry buffer late p = eotLoop (retry + 1) buffer' late' p1"
    have "\<exists>e p'. eotLoop (retry + 1) buffer' late' p1 = (True, p') \<and> 1 \<le> e \<and>
            e \<le> Suc (length pre) \<and> written p' = written p1 @ replicate e [EOT]"
      using Cons.prems p1 by (intro Cons.IH) auto
    then obtain e p' where "eotLoop (retry + 1) buffer' late' p1 = (True, p')"
      "1 \<le> e" "e \<le> Suc (length pre)" "written p' = written p1 @ replicate e [EOT]"
      by blast
    then show ?thesis unfolding r using p1
      by (intro exI [of _ "Suc e"] exI [of _ p']) (simp add: replicate_append_same)
  qed
qed

lemma eot_first_acknowledged:
  assumes "script p = pre @ ev # post" "acknowledged ev" "\<forall>e\<in>set pre. \<not> carriesAck e"
    "retry + length pre < 10" "buffer \<noteq> []" "hd buffer \<noteq> ACK" "noAck late"
  shows "\<exists>p'. eotLoop retry buffer late p = (True, p') \<and> script p' = post \<and>
           written p' = written p @ replicate (Suc (length pre)) [EOT]"
  using assms
proof (induction pre arbitrary: retry buffer late p)
  case Nil
  then show ?case using eotLoop_step_ack [of retry p ev post buffer late] by simp
next
  case (Cons x pre)
  have "script p = [] \<or> \<not> carriesAck (hd (script p))" using Cons.prems(1,3) by simp
  from eotLoop_step_retry [OF _ Cons.prems(5,6,7) this, of retry] Cons.prems(4)
  obtain buffer' late' p1 where b: "buffer' \<noteq> []" "hd buffer' \<noteq> ACK" "noAck late'"
    and e: "eotLoop retry buffer late p = eotLoop (retry + 1) buffer' late' p1"
    and p1: "script p1 = tl (script p)" "written p1 = written p @ [[EOT]]"
    by auto
  have "\<exists>p'. eotLoop (retry + 1) buffer' late' p1 = (True, p') \<and> script p' = post \<and>
           written p' = written p1 @ replicate (Suc (length pre)) [EOT]"
    using Cons.prems b p1 by (intro Cons.IH) auto
  then show ?case unfolding e using p1 by (auto simp: replicate_append_same)
qed


lemma eotLoop_writes:
  assumes "buffer \<noteq> []"
  shows "\<exists>e. e \<le> 10 - retry \<and> (retry < 10 \<longrightarrow> 1 \<le> e) \<and>
           written (snd (eotLoop retry buffer late p)) = written p @ replicate e [EOT]"
  using assms
proof (induction j \<equiv> "10 - retry" arbitrary: retry buffer late p)
  case 0
  then have "\<not> retry < 10" by simp
  then show ?case by (subst eotLoop.simps) simp
next
  case (Suc j)
  then have lt: "retry < 10" and j: "j = 10 - (retry + 1)" by simp_all
  from eotLoop_step [OF lt Suc.prems, of p late]
  obtain p1 buffer' late' where p1: "script p1 = tl (script p)" "written p1 = written p @ [[EOT]]"
      "buffer' \<noteq> []"
    and e: "eotLoop retry buffer late p = (True, p1) \<or>
            eotLoop retry buffer late p = eotLoop (retry + 1) buffer' late' p1"
    by auto
  from e show ?case
  proof
    assume "eotLoop retry buffer late p = (True, p1)"
    then show ?thesis using p1 lt by (intro exI [of _ 1]) simp
  next
    assume r: "eotLoop retry buffer late p = eotLoop (retry + 1) buffer' late' p1"
    from Suc.hyps(1) [OF j p1(3), of late' p1] obtain e where
      "e \<le> 10 - (retry + 1)"
      "written (snd (eotLoop (retry + 1) buffer' late' p1)) = written p1 @ replicate e [EOT]"
      by blast
    then show ?thesis unfolding r using p1 lt
      by (intro exI [of _ "Suc e"]) (simp add: replicate_append_same)
  qed
qed

text \<open>
  An \<^verbatim>\<open>ACK\<close> that arrives after the timeout of its read is not lost to the loop. Here
  the read of the first \<^verbatim>\<open>EOT\<close> times out after 5 s and its \<^verbatim>\<open>ACK\<close> comes 6 s after
  the start; the second read returns no byte after 5.51 s, when the buffer still holds 0;
  the third returns no byte after 6.02 s, when the late \<^verbatim>\<open>ACK\<close> is in the buffer, and
  the loop returns success after three \<^verbatim>\<open>EOT\<close> bytes.
\<close>

lemma eotLoop_stale_ack:
  "eotLoop 0 [0] []
     \<lparr>script = [(6000, ReadBytes [ACK]), (10, ReadBytes []), (10, ReadBytes [])],
      written = [], now = 0\<rparr> =
   (True, \<lparr>script = [], written = [[EOT], [EOT], [EOT]], now = 6020\<rparr>)"
  by code_simp

subsection \<open>The writes of a whole transfer\<close>

lemma handshake_written:
  "\<exists>h x p1. handshakeLoop (now port0) port0 = (x, p1) \<and> x \<noteq> WindowClosed \<and> 1 \<le> h \<and>
     written p1 = written port0 @ replicate h probe"
proof (cases "\<exists>pre ev post. script port0 = pre @ ev # post \<and> accepted ev \<and>
          (\<forall>e\<in>set pre. \<not> accepted e) \<and>
          (now port0 - now port0) + sum_list (map probeTime pre) < HANDSHAKE_TIMEOUT")
  case True
  then obtain pre ev post where "script port0 = pre @ ev # post" "accepted ev"
    "\<forall>e\<in>set pre. \<not> accepted e"
    "(now port0 - now port0) + sum_list (map probeTime pre) < HANDSHAKE_TIMEOUT"
    by blast
  from handshake_negotiated [OF this] show ?thesis
    by (intro exI [of _ "Suc (length pre)"]) simp
next
  case False
  have "now port0 - now port0 < HANDSHAKE_TIMEOUT" by (simp add: HANDSHAKE_TIMEOUT_def)
  from handshake_timed_out [OF this _ False] show ?thesis by auto
qed

lemma xmodemSend_run_trace:
  "\<exists>h ks e. written (snd (xmodemSend_run port0 f)) =
       written port0 @ replicate h probe @ blocksTrace 1 (remaining f) ks @ replicate e [EOT] \<and>
     1 \<le> h \<and> (\<forall>k\<in>set ks. 1 \<le> k \<and> k \<le> MAX_RETRIES) \<and> e \<le> 10"
proof -
  from handshake_written [of port0] obtain h x p1 where
    hs: "handshakeLoop (now port0) port0 = (x, p1)" "x \<noteq> WindowClosed" "1 \<le> h"
      "written p1 = written port0 @ replicate h probe"
    by blast
  show ?thesis
  proof (cases x)
    case WindowClosed
    with hs(2) show ?thesis by simp
  next
    case TimedOut
    with hs have "written (snd (xmodemSend_run port0 f)) =
       written port0 @ replicate h probe @ blocksTrace 1 (remaining f) [] @ replicate 0 [EOT]"
      by (simp add: xmodemSend_run_def)
    with hs(3) show ?thesis by (intro exI [of _ h] exI [of _ "[]"] exI [of _ 0]) simp
  next
    case Negotiated
    obtain er t p2 where dl: "dataLoop 0 1 (replicate DATA_SIZE 0) f p1 = (er, t, p2)"
      by (metis prod.exhaust)
    from dataLoop_trace [OF _ dl] obtain ks where
      ks: "written p2 = written p1 @ blocksTrace 1 (remaining f) ks"
        "\<forall>k\<in>set ks. 1 \<le> k \<and> k \<le> MAX_RETRIES"
      by auto
    show ?thesis
    proof (cases er)
      case (Some err)
      with hs Negotiated dl ks have "written (snd (xmodemSend_run port0 f)) =
         written port0 @ replicate h probe @ blocksTrace 1 (remaining f) ks @ replicate 0 [EOT]"
        by (simp add: xmodemSend_run_def)
      with hs(3) ks(2) show ?thesis by (intro exI [of _ h] exI [of _ ks] exI [of _ 0]) simp
    next
      case None
      from eotLoop_writes [of "[0]" 0 "[]" p2] obtain e where
        e: "e \<le> 10" "written (snd (eotLoop 0 [0] [] p2)) = written p2 @ replicate e [EOT]"
        by auto
      have "snd (xmodemSend_run port0 f) = snd (eotLoop 0 [0] [] p2)"
        using hs Negotiated dl None
        by (auto simp: xmodemSend_run_def split: prod.splits bool.splits)
      with e ks hs have "written (snd (xmodemSend_run port0 f)) =
         written port0 @ replicate h probe @ blocksTrace 1 (remaining f) ks @ replicate e [EOT]"
        by simp
      with hs(3) ks(2) e(1) show ?thesis by (intro exI [of _ h] exI [of _ ks] exI [of _ e]) simp
    qed
  qed
qed

lemma blocksTrace_packets:
  "w \<in> set (blocksTrace bn rest ks) \<Longrightarrow>
   \<exists>seq payload. length payload = DATA_SIZE \<and> w = buildPacket seq payload"
proof (induction ks arbitrary: bn rest)
  case Nil
  then show ?case by simp
next
  case (Cons k ks)
  from Cons.prems have "w = buildPacket bn (chunkPayload rest) \<or>
      w \<in> set (blocksTrace (bn + 1) (drop DATA_SIZE rest) ks)"
    by (auto split: if_splits)
  then show ?case
  proof
    assume "w = buildPacket bn (chunkPayload rest)"
    then show ?thesis using length_chunkPayload by blast
  next
    assume "w \<in> set (blocksTrace (bn + 1) (drop DATA_SIZE rest) ks)"
    then show ?thesis by (rule Cons.IH)
  qed
qed

subsection \<open>The data packets\<close>

text \<open>
  Claim C3, as amended. The writes of \<^verbatim>\<open>xmodemSend\<close> are the probes of the handshake,
  then the data packets, then the \<^verbatim>\<open>EOT\<close> bytes. Every data packet is laid out as the
  block-start marker 0x01, the sequence number, its one's complement, a payload of 128
  bytes and the checksum of the payload, in that order: 132 bytes, not the 131 of the
  claim.
\<close>

theorem data_packet_layout:
  "\<exists>h ds e. written (snd (xmodemSend_run port0 f)) =
       written port0 @ replicate h probe @ ds @ replicate e [EOT] \<and>
     (\<forall>w\<in>set ds. length w = 132 \<and>
        (\<exists>seq payload. length payload = 128 \<and>
           w = [0x01, seq, NOT seq] @ payload @ [calculateChecksum payload]))"
proof -
  from xmodemSend_run_trace [of port0 f] obtain h ks e where
    t: "written (snd (xmodemSend_run port0 f)) =
       written port0 @ replicate h probe @ blocksTrace 1 (remaining f) ks @ replicate e [EOT]"
    by blast
  have "length w = 132 \<and>
        (\<exists>seq payload. length payload = 128 \<and>
           w = [0x01, seq, NOT seq] @ payload @ [calculateChecksum payload])"
    if "w \<in> set (blocksTrace 1 (remaining f) ks)" for w
  proof -
    from blocksTrace_packets [OF that] obtain seq payload where
      "length payload = DATA_SIZE" "w = buildPacket seq payload" by blast
    then have "length w = 132" "length payload = 128"
      "w = [0x01, seq, NOT seq] @ payload @ [calculateChecksum payload]"
      by (simp_all add: buildPacket_def DATA_SIZE_def SOH_def)
    then show ?thesis by blast
  qed
  with t show ?thesis by blast
qed


theorem data_packet_layout_witness:
  "\<exists>h ds e.
     written (snd (xmodemSend_run
       \<lparr>script = [(10, ReadBytes [CRC_START]), (10, ReadBytes [ACK]), (10, ReadBytes [ACK])],
        written = [], now = 0\<rparr>
       \<lparr>remaining = [1, 2, 3], fault_after = None\<rparr>)) =
       written \<lparr>script = [(10, ReadBytes [CRC_START]), (10, ReadBytes [ACK]),
                 (10, ReadBytes [ACK])], written = [], now = 0\<rparr> @
       replicate h probe @ ds @ replicate e [EOT] \<and>
     ds \<noteq> [] \<and>
     (\<forall>w\<in>set ds. length w = 132 \<and>
        (\<exists>seq payload. length payload = 128 \<and>
           w = [0x01, seq, NOT seq] @ payload @ [calculateChecksum payload]))"
proof -
  let ?P = "\<lparr>script = [(10, ReadBytes [CRC_START]), (10, ReadBytes [ACK]), (10, ReadBytes [ACK])],
        written = [], now = 0\<rparr>"
  let ?F = "\<lparr>remaining = [1, 2, 3], fault_after = None\<rparr>"
  have run: "written (snd (xmodemSend_run ?P ?F)) =
     [probe, buildPacket 1 ([1, 2, 3] @ replicate 125 0x1A), [EOT]]"
    by code_simp
  from data_packet_layout [of ?P ?F] obtain h ds e where
    t: "written (snd (xmodemSend_run ?P ?F)) =
         written ?P @ replicate h probe @ ds @ replicate e [EOT]"
    and l: "\<forall>w\<in>set ds. length w = 132 \<and>
        (\<exists>seq payload. length payload = 128 \<and>
           w = [0x01, seq, NOT seq] @ payload @ [calculateChecksum payload])"
    by blast
  have "ds \<noteq> []"
  proof
    assume "ds = []"
    with t run have "set [probe, buildPacket 1 ([1, 2, 3] @ replicate 125 0x1A), [EOT]] =
       set (replicate h probe @ replicate e [EOT])" by simp
    then have "buildPacket 1 ([1, 2, 3] @ replicate 125 0x1A) \<in> {probe, [EOT]}"
      by (auto split: if_splits)
    then show False by (auto simp: buildPacket_def probe_def)
  qed
  with t l show ?thesis by blast
qed

text \<open>
  The claim as stated fails on every data packet. A file of three bytes, a receiver that
  accepts the handshake and acknowledges the block and the \<^verbatim>\<open>EOT\<close>: the second write
  is the one data packet, of 132 bytes.
\<close>

theorem data_packet_length_counterexample:
  "written (snd (xmodemSend_run
       \<lparr>script = [(10, ReadBytes [CRC_START]), (10, ReadBytes [ACK]), (10, ReadBytes [ACK])],
        written = [], now = 0\<rparr>
       \<lparr>remaining = [1, 2, 3], fault_after = None\<rparr>)) =
     [[0x43, 0x43, 0x43, 0x43],
      [0x01, 0x01, 0xFE] @ ([1, 2, 3] @ replicate 125 0x1A) @ [0xB8],
      [0x04]] \<and>
   length ([0x01, 0x01, 0xFE] @ ([1, 2, 3] @ replicate 125 0x1A) @ [0xB8 :: byte]) = 132 \<and>
   length ([0x01, 0x01, 0xFE] @ ([1, 2, 3] @ replicate 125 0x1A) @ [0xB8 :: byte]) \<noteq> 131"
  by code_simp

subsection \<open>Padding of a short chunk\<close>

lemma ReadFull_empty:
  "remaining f = [] \<Longrightarrow> ReadFull f buf = ((0, buf, Some EOF), f)"
  by (simp add: ReadFull_def device_fault_def split: option.splits)

lemma ReadFull_short:
  assumes "remaining f = chunk" "chunk \<noteq> []" "length chunk < DATA_SIZE" "\<not> device_fault f"
  shows "ReadFull f buf =
     ((length chunk, chunk @ drop (length chunk) buf, Some ErrUnexpectedEOF),
      f\<lparr>remaining := []\<rparr>)"
  using assms by (simp add: ReadFull_def)

text \<open>
  Claim C2. Whenever the data loop of \<^verbatim>\<open>xmodemSend\<close> finds a chunk of fewer than 128
  bytes left in the source (whatever the byte count, the sequence number and the contents
  of the data buffer at that point, and whatever the receiver does), every packet it
  writes from then on is the packet of that block: its payload is the chunk followed by
  exactly \<open>128 - length chunk\<close> bytes \<^verbatim>\<open>0x1A\<close>, and its last byte is the checksum of this
  padded payload. The packet is written at least once and at most ten times. In the
  witness the padded payload has checksum \<^verbatim>\<open>0xFC\<close>, the chunk alone \<^verbatim>\<open>0x30\<close>.
\<close>

theorem short_chunk_padded:
  assumes "remaining f = chunk" "chunk \<noteq> []" "length chunk < 128" "\<not> device_fault f"
  shows "\<exists>k. 1 \<le> k \<and> k \<le> 10 \<and>
     written (snd (snd (dataLoop totalBytesSent blockNum dataBuffer f p))) =
       written p @
       replicate k
         ([SOH, blockNum, NOT blockNum] @
          (chunk @ replicate (128 - length chunk) 0x1A) @
          [calculateChecksum (chunk @ replicate (128 - length chunk) 0x1A)])"
proof -
  let ?blk = "chunk @ replicate (128 - length chunk) 0x1A"
  have lt: "length chunk < DATA_SIZE" using assms(3) by (simp add: DATA_SIZE_def)
  note rf = ReadFull_short [OF assms(1,2) lt assms(4), of dataBuffer]
  have pb: "padBlock (length chunk) (chunk @ drop (length chunk) dataBuffer) = ?blk"
    using lt by (simp add: padBlock_def DATA_SIZE_def)
  obtain x q where sb: "sendBlockLoop 0 blockNum ?blk p = (x, q)"
    by (cases "sendBlockLoop 0 blockNum ?blk p")
  from sendBlockLoop_trace [of 0 blockNum ?blk p] sb obtain k where
    k: "written q = written p @ replicate k (buildPacket blockNum ?blk)" "k \<le> 10" "1 \<le> k"
    by (auto simp: MAX_RETRIES_def)
  have dl: "dataLoop totalBytesSent blockNum dataBuffer f p =
       (case (x, q) of
        (NextBlock, p') \<Rightarrow>
          dataLoop (totalBytesSent + int (length chunk)) (blockNum + 1) ?blk
            (f\<lparr>remaining := []\<rparr>) p'
      | (Cancelled, p') \<Rightarrow> (Some TransferCancelled, totalBytesSent, p')
      | (Exhausted, p') \<Rightarrow> (Some (MaxRetriesReached blockNum), totalBytesSent, p'))"
    using dataLoop_block [OF rf, of totalBytesSent blockNum p] sb unfolding pb by simp
  have nx: "dataLoop t b ?blk (f\<lparr>remaining := []\<rparr>) q = (None, t, q)" for t b
    by (rule dataLoop_EOF [OF ReadFull_empty]) simp
  have "snd (snd (dataLoop totalBytesSent blockNum dataBuffer f p)) = q"
    unfolding dl by (cases x) (simp_all add: nx)
  with k show ?thesis by (auto simp: buildPacket_def)
qed

theorem short_chunk_padded_witness:
  "remaining \<lparr>remaining = [0x10, 0x20], fault_after = None\<rparr> = [0x10, 0x20] \<and>
   [0x10, 0x20 :: byte] \<noteq> [] \<and> length [0x10, 0x20 :: byte] < 128 \<and>
   \<not> device_fault \<lparr>remaining = [0x10, 0x20], fault_after = None\<rparr> \<and>
   (\<exists>k. 1 \<le> k \<and> k \<le> 10 \<and>
     written (snd (snd (dataLoop 128 2 (replicate 128 0xEE)
        \<lparr>remaining = [0x10, 0x20], fault_after = None\<rparr>
        \<lparr>script = [(6000, ReadBytes [ACK]), (0, ReadBytes [ACK])], written = [], now = 0\<rparr>))) =
       written \<lparr>script = [(6000, ReadBytes [ACK]), (0, ReadBytes [ACK])],
                written = [], now = 0\<rparr> @
       replicate k
         ([SOH, 2, NOT 2] @
          ([0x10, 0x20] @ replicate (128 - length [0x10, 0x20 :: byte]) 0x1A) @
          [calculateChecksum ([0x10, 0x20] @ replicate (128 - length [0x10, 0x20 :: byte]) 0x1A)])) \<and>
   written (snd (snd (dataLoop 128 2 (replicate 128 0xEE)
        \<lparr>remaining = [0x10, 0x20], fault_after = None\<rparr>
        \<lparr>script = [(6000, ReadBytes [ACK]), (0, ReadBytes [ACK])], written = [], now = 0\<rparr>))) =
     replicate 2 ([0x01, 0x02, 0xFD] @ ([0x10, 0x20] @ replicate 126 0x1A) @ [0xFC]) \<and>
   calculateChecksum [0x10, 0x20] = 0x30"
proof -
  let ?F = "\<lparr>remaining = [0x10, 0x20], fault_after = None\<rparr>"
  let ?P = "\<lparr>script = [(6000, ReadBytes [ACK]), (0, ReadBytes [ACK])], written = [], now = 0\<rparr>"
  have a1: "remaining ?F = [0x10, 0x20]" by simp
  have a2: "[0x10, 0x20 :: byte] \<noteq> []" by simp
  have a3: "length [0x10, 0x20 :: byte] < 128" by simp
  have a4: "\<not> device_fault ?F" by (simp add: device_fault_def)
  have run: "written (snd (snd (dataLoop 128 2 (replicate 128 0xEE) ?F ?P))) =
     replicate 2 ([0x01, 0x02, 0xFD] @ ([0x10, 0x20] @ replicate 126 0x1A) @ [0xFC])"
    by code_simp
  have cs: "calculateChecksum [0x10, 0x20] = 0x30" by code_simp
  from short_chunk_padded [OF a1 a2 a3 a4, of 128 2 "replicate 128 0xEE" ?P] a1 a2 a3 a4 run cs
  show ?thesis by blast
qed

subsection \<open>An empty source\<close>

text \<open>
  Claim C9. For an empty firmware source, after a successful handshake (which leaves the
  port as \<open>p1\<close>) the data loop ends at once without a write. When the read that follows
  one of the first ten \<^verbatim>\<open>EOT\<close> bytes returns \<^verbatim>\<open>ACK\<close> in time, \<^verbatim>\<open>xmodemSend\<close> returns
  0 bytes sent and no error, and all it has written after the handshake is \<^verbatim>\<open>EOT\<close>
  bytes: at least one, and none after the attempt that is so acknowledged. There is
  exactly one for each attempt up to that one when no earlier read brings an \<^verbatim>\<open>ACK\<close> at
  all; an \<^verbatim>\<open>ACK\<close> that comes after the timeout of its read may end the loop, with
  success, at an attempt before.
\<close>

theorem empty_source_transfer:
  assumes "remaining f = []"
    and "handshakeLoop (now port0) port0 = (Negotiated, p1)"
    and "script p1 = pre @ ev # post" "acknowledged ev"
    and "length pre < 10"
  shows "dataLoop 0 1 (replicate DATA_SIZE 0) f p1 = (None, 0, p1) \<and>
         xmodemSend port0 f = (0, None) \<and>
         (\<exists>e. 1 \<le> e \<and> e \<le> Suc (length pre) \<and>
            written (snd (xmodemSend_run port0 f)) = written p1 @ replicate e [EOT]) \<and>
         ((\<forall>x\<in>set pre. \<not> carriesAck x) \<longrightarrow>
            written (snd (xmodemSend_run port0 f)) =
              written p1 @ replicate (Suc (length pre)) [EOT])"
proof -
  have dl: "dataLoop 0 1 (replicate DATA_SIZE 0) f p1 = (None, 0, p1)"
    using dataLoop_EOF [OF ReadFull_empty [OF assms(1)]] .
  from eot_acknowledged [OF assms(3,4), of 0 "[0]" "[]"] assms(5) obtain e p3 where
    e: "eotLoop 0 [0] [] p1 = (True, p3)" "1 \<le> e" "e \<le> Suc (length pre)"
       "written p3 = written p1 @ replicate e [EOT]"
    by auto
  have run: "xmodemSend_run port0 f = ((0, None), p3)"
    using assms(2) dl e(1) by (simp add: xmodemSend_run_def)
  have ex: "\<exists>e. 1 \<le> e \<and> e \<le> Suc (length pre) \<and>
            written (snd (xmodemSend_run port0 f)) = written p1 @ replicate e [EOT]"
    using run e(2,3,4) by (intro exI [of _ e]) simp
  have first: "(\<forall>x\<in>set pre. \<not> carriesAck x) \<longrightarrow>
            written (snd (xmodemSend_run port0 f)) =
              written p1 @ replicate (Suc (length pre)) [EOT]"
  proof
    assume na: "\<forall>x\<in>set pre. \<not> carriesAck x"
    have l: "0 + length pre < 10" using assms(5) by simp
    have b: "[0 :: byte] \<noteq> []" "hd [0 :: byte] \<noteq> ACK" "noAck []"
      by (simp_all add: ACK_def noAck_def)
    from eot_first_acknowledged [OF assms(3,4) na l b] obtain p4 where
      "eotLoop 0 [0] [] p1 = (True, p4)"
      "written p4 = written p1 @ replicate (Suc (length pre)) [EOT]"
      by blast
    with e(1) run show "written (snd (xmodemSend_run port0 f)) =
              written p1 @ replicate (Suc (length pre)) [EOT]"
      by simp
  qed
  from dl run ex first show ?thesis by (simp add: xmodemSend_def)
qed

theorem empty_source_transfer_witness:
  "remaining \<lparr>remaining = [], fault_after = None\<rparr> = [] \<and>
   handshakeLoop 0 \<lparr>script = [(20, ReadBytes [CRC_START]), (5000, ReadBytes []),
                       (30, ReadBytes [ACK])], written = [], now = 0\<rparr> =
     (Negotiated, \<lparr>script = [(5000, ReadBytes []), (30, ReadBytes [ACK])],
                   written = [probe], now = 20\<rparr>) \<and>
   acknowledged (30, ReadBytes [ACK]) \<and> \<not> carriesAck (5000, ReadBytes []) \<and>
   xmodemSend \<lparr>script = [(20, ReadBytes [CRC_START]), (5000, ReadBytes []),
                 (30, ReadBytes [ACK])], written = [], now = 0\<rparr>
              \<lparr>remaining = [], fault_after = None\<rparr> = (0, None) \<and>
   written (snd (xmodemSend_run
              \<lparr>script = [(20, ReadBytes [CRC_START]), (5000, ReadBytes []),
                 (30, ReadBytes [ACK])], written = [], now = 0\<rparr>
              \<lparr>remaining = [], fault_after = None\<rparr>)) = [probe, [EOT], [EOT]]"
proof -
  let ?P = "\<lparr>script = [(20, ReadBytes [CRC_START]), (5000, ReadBytes []),
                 (30, ReadBytes [ACK])], written = [], now = 0\<rparr>"
  let ?P1 = "\<lparr>script = [(5000, ReadBytes []), (30, ReadBytes [ACK])],
                   written = [probe], now = 20\<rparr>"
  let ?F = "\<lparr>remaining = [], fault_after = None\<rparr>"
  have a1: "remaining ?F = []" by simp
  have a2: "handshakeLoop (now ?P) ?P = (Negotiated, ?P1)" by code_simp
  have a3: "script ?P1 = [(5000, ReadBytes [])] @ (30, ReadBytes [ACK]) # []" by simp
  have a4: "acknowledged (30, ReadBytes [ACK])" by (simp add: ACK_def)
  have a5: "length [(5000 :: nat, ReadBytes [])] < 10" by simp
  have a6: "\<forall>x\<in>set [(5000 :: nat, ReadBytes [])]. \<not> carriesAck x" by simp
  from empty_source_transfer [OF a1 a2 a3 a4 a5] a2 a4 a6
  show ?thesis by simp
qed

text \<open>
  With an \<^verbatim>\<open>ACK\<close> that comes 1 s after the timeout of the first read, and two reads that
  return no byte, the transfer of the empty source succeeds after three \<^verbatim>\<open>EOT\<close> bytes,
  before the attempt whose read returns \<^verbatim>\<open>ACK\<close> in time.
\<close>

lemma empty_source_stale_ack:
  "xmodemSend_run
     \<lparr>script = [(20, ReadBytes [CRC_START]), (6000, ReadBytes [ACK]), (10, ReadBytes []),
                (10, ReadBytes []), (10, ReadBytes [ACK])], written = [], now = 0\<rparr>
     \<lparr>remaining = [], fault_after = None\<rparr> =
   ((0, None),
    \<lparr>script = [(10, ReadBytes [ACK])], written = [probe, [EOT], [EOT], [EOT]],
     now = 6040\<rparr>)"
  by code_simp

subsection \<open>The outcome of the handshake\<close>

text \<open>
  Claim C7, as amended. The handshake succeeds exactly when some probe whose read begins
  less than 10 s after the start (the reads of the probes before it, none of them
  accepted, have taken less than 10 s together) is accepted: its read returns
  \<^verbatim>\<open>0x43\<close> or \<^verbatim>\<open>0x15\<close> before its own timeout of 1.5 s. The window bounds the start of
  the read, not the arrival of the byte, which may come up to 1.5 s after the window has
  closed. Every other reply is passed over and the next probe is sent. When no probe is
  so accepted, \<^verbatim>\<open>xmodemSend\<close> returns the handshake-timeout error with zero bytes sent,
  and all it has written is probes: the data phase is not entered.
\<close>

theorem handshake_outcome:
  "(\<forall>pre ev post.
      script port0 = pre @ ev # post \<and> accepted ev \<and> (\<forall>e\<in>set pre. \<not> accepted e) \<and>
      sum_list (map probeTime pre) < HANDSHAKE_TIMEOUT \<longrightarrow>
      handshakeLoop (now port0) port0 =
        (Negotiated, port0\<lparr>script := post,
                           written := written port0 @ replicate (Suc (length pre)) probe,
                           now := now port0 + sum_list (map probeTime pre) + fst ev\<rparr>)) \<and>
   (\<not> (\<exists>pre ev post.
      script port0 = pre @ ev # post \<and> accepted ev \<and> (\<forall>e\<in>set pre. \<not> accepted e) \<and>
      sum_list (map probeTime pre) < HANDSHAKE_TIMEOUT) \<longrightarrow>
    (\<exists>k p'. 1 \<le> k \<and> handshakeLoop (now port0) port0 = (TimedOut, p') \<and>
       xmodemSend_run port0 f = ((0, Some HandshakeTimeout), p') \<and>
       written p' = written port0 @ replicate k probe))"
proof (intro conjI allI impI)
  fix pre ev post
  assume a: "script port0 = pre @ ev # post \<and> accepted ev \<and> (\<forall>e\<in>set pre. \<not> accepted e) \<and>
      sum_list (map probeTime pre) < HANDSHAKE_TIMEOUT"
  then have "(now port0 - now port0) + sum_list (map probeTime pre) < HANDSHAKE_TIMEOUT"
    by simp
  from handshake_negotiated [OF _ _ _ this, of ev post] a
  have "handshakeLoop (now port0) port0 =
        (Negotiated, port0\<lparr>script := post,
                           written := written port0 @ replicate (Suc (length pre)) probe,
                           now := now port0 + sum_list (map probeTime pre) + probeTime ev\<rparr>)"
    by blast
  moreover have "probeTime ev = fst ev"
    using a by (cases ev rule: accepted.cases) (auto simp: probeTime_def)
  ultimately show "handshakeLoop (now port0) port0 =
        (Negotiated, port0\<lparr>script := post,
                           written := written port0 @ replicate (Suc (length pre)) probe,
                           now := now port0 + sum_list (map probeTime pre) + fst ev\<rparr>)"
    by simp
next
  assume "\<not> (\<exists>pre ev post.
      script port0 = pre @ ev # post \<and> accepted ev \<and> (\<forall>e\<in>set pre. \<not> accepted e) \<and>
      sum_list (map probeTime pre) < HANDSHAKE_TIMEOUT)"
  then have no: "\<not> (\<exists>pre ev post.
      script port0 = pre @ ev # post \<and> accepted ev \<and> (\<forall>e\<in>set pre. \<not> accepted e) \<and>
      (now port0 - now port0) + sum_list (map probeTime pre) < HANDSHAKE_TIMEOUT)"
    by simp
  have "now port0 - now port0 < HANDSHAKE_TIMEOUT" by (simp add: HANDSHAKE_TIMEOUT_def)
  from handshake_timed_out [OF this _ no] obtain k p' where
    k: "handshakeLoop (now port0) port0 = (TimedOut, p')" "1 \<le> k"
       "written p' = written port0 @ replicate k probe"
    by auto
  then have "xmodemSend_run port0 f = ((0, Some HandshakeTimeout), p')"
    by (simp add: xmodemSend_run_def)
  with k show "\<exists>k p'. 1 \<le> k \<and> handshakeLoop (now port0) port0 = (TimedOut, p') \<and>
       xmodemSend_run port0 f = ((0, Some HandshakeTimeout), p') \<and>
       written p' = written port0 @ replicate k probe"
    by blast
qed

theorem handshake_outcome_witness:
  "accepted (300, ReadBytes [NAK]) \<and> \<not> accepted (200, ReadBytes [ACK]) \<and>
   handshakeLoop 0 \<lparr>script = [(200, ReadBytes [ACK]), (300, ReadBytes [NAK])],
                      written = [], now = 0\<rparr> =
     (Negotiated, \<lparr>script = [], written = [probe, probe], now = 500\<rparr>) \<and>
   (\<exists>k p'. 1 \<le> k \<and>
      handshakeLoop 0 \<lparr>script = [], written = [], now = 0\<rparr> = (TimedOut, p') \<and>
      xmodemSend_run \<lparr>script = [], written = [], now = 0\<rparr>
        \<lparr>remaining = [1, 2, 3], fault_after = None\<rparr> = ((0, Some HandshakeTimeout), p') \<and>
      written p' = [] @ replicate k probe) \<and>
   written (snd (xmodemSend_run \<lparr>script = [], written = [], now = 0\<rparr>
        \<lparr>remaining = [1, 2, 3], fault_after = None\<rparr>)) = replicate 7 probe"
proof -
  let ?A = "\<lparr>script = [(200, ReadBytes [ACK]), (300, ReadBytes [NAK])], written = [], now = 0\<rparr>"
  let ?S = "\<lparr>script = [], written = [], now = 0\<rparr>"
  let ?F = "\<lparr>remaining = [1, 2, 3], fault_after = None\<rparr>"
  have acc: "accepted (300, ReadBytes [NAK])" "\<not> accepted (200, ReadBytes [ACK])"
    by (simp_all add: xmodem_consts)
  have "script ?A = [(200, ReadBytes [ACK])] @ (300, ReadBytes [NAK]) # [] \<and>
        accepted (300, ReadBytes [NAK]) \<and> (\<forall>e\<in>set [(200, ReadBytes [ACK])]. \<not> accepted e) \<and>
        sum_list (map probeTime [(200, ReadBytes [ACK])]) < HANDSHAKE_TIMEOUT"
    using acc by (simp add: probeTime_def HANDSHAKE_TIMEOUT_def)
  with handshake_outcome [of ?A ?F] have
    "handshakeLoop (now ?A) ?A =
        (Negotiated, ?A\<lparr>script := [],
           written := written ?A @ replicate (Suc (length [(200 :: nat, ReadBytes [ACK])])) probe,
           now := now ?A + sum_list (map probeTime [(200, ReadBytes [ACK])]) +
                  fst (300 :: nat, ReadBytes [NAK])\<rparr>)"
    by blast
  then have 1: "handshakeLoop 0 ?A =
     (Negotiated, \<lparr>script = [], written = [probe, probe], now = 500\<rparr>)"
    by (simp add: probeTime_def)
  have "\<not> (\<exists>pre ev post.
      script ?S = pre @ ev # post \<and> accepted ev \<and> (\<forall>e\<in>set pre. \<not> accepted e) \<and>
      sum_list (map probeTime pre) < HANDSHAKE_TIMEOUT)"
    by simp
  with handshake_outcome [of ?S ?F] have 2: "\<exists>k p'. 1 \<le> k \<and>
      handshakeLoop (now ?S) ?S = (TimedOut, p') \<and>
      xmodemSend_run ?S ?F = ((0, Some HandshakeTimeout), p') \<and>
      written p' = written ?S @ replicate k probe"
    by blast
  have 3: "written (snd (xmodemSend_run ?S ?F)) = replicate 7 probe"
    by code_simp
  from acc 1 2 3 show ?thesis by simp
qed

text \<open>
  The claim as stated, with the byte arriving within the 10 s, fails: six probes time out
  (9 s), the read of the seventh begins at 9 s and returns \<^verbatim>\<open>0x43\<close> after 1.4 s. The
  byte arrives 10.4 s after the start, after the window, and the handshake succeeds; with
  an empty file and an acknowledged \<^verbatim>\<open>EOT\<close> the whole transfer succeeds.
\<close>

theorem handshake_window_counterexample:
  "handshakeLoop 0
     \<lparr>script = replicate 6 (1500, ReadBytes []) @
                [(1400, ReadBytes [CRC_START]), (10, ReadBytes [ACK])],
      written = [], now = 0\<rparr> =
     (Negotiated, \<lparr>script = [(10, ReadBytes [ACK])], written = replicate 7 probe,
                   now = 10400\<rparr>) \<and>
   HANDSHAKE_TIMEOUT < 10400 \<and>
   xmodemSend
     \<lparr>script = replicate 6 (1500, ReadBytes []) @
                [(1400, ReadBytes [CRC_START]), (10, ReadBytes [ACK])],
      written = [], now = 0\<rparr>
     \<lparr>remaining = [], fault_after = None\<rparr> = (0, None)"
  by code_simp

subsection \<open>An unacknowledged end of transmission\<close>




subsection \<open>Blocks and attempts of a run\<close>

lemma ReadFull_full:
  assumes "fault_after f = None" "DATA_SIZE \<le> length (remaining f)" "length buf = DATA_SIZE"
  shows "ReadFull f buf =
     ((DATA_SIZE, take DATA_SIZE (remaining f), None),
      f\<lparr>remaining := drop DATA_SIZE (remaining f)\<rparr>)"
  using assms
  by (cases f) (auto simp: ReadFull_def device_fault_def DATA_SIZE_def Let_def)

lemma ReadFull_next:
  assumes "fault_after f = None" "remaining f \<noteq> []" "length buf = DATA_SIZE"
  shows "\<exists>b er. ReadFull f buf =
           ((min DATA_SIZE (length (remaining f)), b, er),
            f\<lparr>remaining := drop DATA_SIZE (remaining f)\<rparr>) \<and>
           (er = None \<or> er = Some ErrUnexpectedEOF) \<and>
           padBlock (min DATA_SIZE (length (remaining f))) b = chunkPayload (remaining f)"
proof (cases "length (remaining f) < DATA_SIZE")
  case True
  have nf: "\<not> device_fault f" using assms(1) by (simp add: device_fault_def)
  note rf = ReadFull_short [OF refl assms(2) True nf, of buf]
  have pb: "padBlock (length (remaining f)) (remaining f @ drop (length (remaining f)) buf) =
            chunkPayload (remaining f)"
    using True by (simp add: padBlock_def chunkPayload_def)
  have "drop DATA_SIZE (remaining f) = []" using True by simp
  with rf pb True show ?thesis by (simp add: min_def)
next
  case False
  then have ge: "DATA_SIZE \<le> length (remaining f)" by simp
  note rf = ReadFull_full [OF assms(1) ge assms(3)]
  have pb: "padBlock DATA_SIZE (take DATA_SIZE (remaining f)) = chunkPayload (remaining f)"
    using ge by (simp add: padBlock_def chunkPayload_def)
  with rf ge show ?thesis by (simp add: min_def)
qed

lemma dataLoop_next_block:
  assumes "fault_after f = None" "remaining f \<noteq> []" "length buf = DATA_SIZE"
    "sendBlockLoop 0 bn (chunkPayload (remaining f)) p = (x, q)"
  shows "x = NextBlock \<Longrightarrow> dataLoop tot bn buf f p =
          dataLoop (tot + int (min DATA_SIZE (length (remaining f)))) (bn + 1)
            (chunkPayload (remaining f)) (f\<lparr>remaining := drop DATA_SIZE (remaining f)\<rparr>) q"
    and "x = Cancelled \<Longrightarrow> dataLoop tot bn buf f p = (Some TransferCancelled, tot, q)"
    and "x = Exhausted \<Longrightarrow> dataLoop tot bn buf f p = (Some (MaxRetriesReached bn), tot, q)"
proof -
  from ReadFull_next [OF assms(1,2,3)] obtain b er where
    rf: "ReadFull f buf =
           ((min DATA_SIZE (length (remaining f)), b, er),
            f\<lparr>remaining := drop DATA_SIZE (remaining f)\<rparr>)"
    and er: "er = None \<or> er = Some ErrUnexpectedEOF"
    and pb: "padBlock (min DATA_SIZE (length (remaining f))) b = chunkPayload (remaining f)"
    by blast
  note dl = dataLoop_block [OF rf er, of tot bn p, unfolded pb assms(4)]
  show "x = NextBlock \<Longrightarrow> dataLoop tot bn buf f p =
          dataLoop (tot + int (min DATA_SIZE (length (remaining f)))) (bn + 1)
            (chunkPayload (remaining f)) (f\<lparr>remaining := drop DATA_SIZE (remaining f)\<rparr>) q"
    using dl by simp
  show "x = Cancelled \<Longrightarrow> dataLoop tot bn buf f p = (Some TransferCancelled, tot, q)"
    using dl by simp
  show "x = Exhausted \<Longrightarrow> dataLoop tot bn buf f p = (Some (MaxRetriesReached bn), tot, q)"
    using dl by simp
qed

lemma dataLoop_append:
  assumes "fault_after f = None" "remaining f = pre @ rest" "length pre = DATA_SIZE * m"
    "length buf = DATA_SIZE"
    "dataLoop tot bn buf (f\<lparr>remaining := pre\<rparr>) p = (None, t, p')"
  shows "t = tot + int (length pre) \<and>
         (\<exists>buf'. length buf' = DATA_SIZE \<and>
            dataLoop tot bn buf f p =
            dataLoop t (bn + of_nat m) buf' (f\<lparr>remaining := rest\<rparr>) p')"
  using assms
proof (induction m arbitrary: tot bn buf pre p f)
  case 0
  then have pre: "pre = []" by simp
  then have "dataLoop tot bn buf (f\<lparr>remaining := pre\<rparr>) p = (None, tot, p)"
    by (intro dataLoop_EOF [OF ReadFull_empty]) simp
  with "0.prems"(5) have "t = tot" "p' = p" by simp_all
  moreover have "f\<lparr>remaining := rest\<rparr> = f" using "0.prems"(2) pre by simp
  ultimately show ?case using pre "0.prems"(4) by (intro conjI exI [of _ buf]) simp_all
next
  case (Suc m)
  let ?g = "f\<lparr>remaining := pre\<rparr>"
  let ?blk = "take DATA_SIZE pre"
  have ge: "DATA_SIZE \<le> length pre" using Suc.prems(3) by simp
  have ne: "pre \<noteq> []" using ge by (auto simp: DATA_SIZE_def)
  have cp: "chunkPayload pre = ?blk" "chunkPayload (pre @ rest) = ?blk"
    using ge by (simp_all add: chunkPayload_def)
  obtain x q where sb: "sendBlockLoop 0 bn ?blk p = (x, q)"
    by (cases "sendBlockLoop 0 bn ?blk p")
  have sg: "sendBlockLoop 0 bn (chunkPayload (remaining ?g)) p = (x, q)"
    using sb cp by simp
  have sf: "sendBlockLoop 0 bn (chunkPayload (remaining f)) p = (x, q)"
    using sb cp Suc.prems(2) by simp
  have gf: "fault_after ?g = None" "remaining ?g \<noteq> []" using Suc.prems(1) ne by simp_all
  have ff: "remaining f \<noteq> []" using Suc.prems(2) ne by simp
  note dg = dataLoop_next_block [OF gf Suc.prems(4) sg, of tot]
  note df = dataLoop_next_block [OF Suc.prems(1) ff Suc.prems(4) sf, of tot]
  have x: "x = NextBlock" using dg(2,3) Suc.prems(5) by (cases x) simp_all
  let ?f' = "f\<lparr>remaining := drop DATA_SIZE pre @ rest\<rparr>"
  have rec: "dataLoop (tot + int DATA_SIZE) (bn + 1) ?blk (?f'\<lparr>remaining := drop DATA_SIZE pre\<rparr>) q =
             (None, t, p')"
    using dg(1) [OF x] Suc.prems(5) ge cp by (simp add: min_def)
  have fl: "dataLoop tot bn buf f p = dataLoop (tot + int DATA_SIZE) (bn + 1) ?blk ?f' q"
    using df(1) [OF x] Suc.prems(2) ge cp by (simp add: min_def)
  have "t = tot + int DATA_SIZE + int (length (drop DATA_SIZE pre)) \<and>
         (\<exists>buf'. length buf' = DATA_SIZE \<and>
            dataLoop (tot + int DATA_SIZE) (bn + 1) ?blk ?f' q =
            dataLoop t (bn + 1 + of_nat m) buf' (?f'\<lparr>remaining := rest\<rparr>) p')"
    using Suc.prems(1,3) ge rec by (intro Suc.IH) (simp_all add: DATA_SIZE_def)
  then obtain buf' where
    t: "t = tot + int DATA_SIZE + int (length (drop DATA_SIZE pre))"
    and b: "length buf' = DATA_SIZE"
    and e: "dataLoop (tot + int DATA_SIZE) (bn + 1) ?blk ?f' q =
            dataLoop t (bn + 1 + of_nat m) buf' (?f'\<lparr>remaining := rest\<rparr>) p'"
    by blast
  have bn: "bn + 1 + of_nat m = bn + of_nat (Suc m)" by simp
  have fr: "?f'\<lparr>remaining := rest\<rparr> = f\<lparr>remaining := rest\<rparr>" by simp
  have tt: "t = tot + int (length pre)" using t ge by simp
  have "dataLoop tot bn buf f p = dataLoop t (bn + of_nat (Suc m)) buf' (f\<lparr>remaining := rest\<rparr>) p'"
    unfolding fl e bn fr ..
  with tt b show ?case by blast
qed


lemma afterAttempts_snoc:
  "afterAttempts bn blk (Suc r) p = snd (sendAttempt bn blk (afterAttempts bn blk r p))"
  by (induction r arbitrary: p) simp_all

lemma replyAt_0: "replyAt bn blk 0 p = fst (sendAttempt bn blk p)"
  by (simp add: replyAt_def)

lemma replyAt_Suc: "replyAt bn blk (Suc r) p = replyAt bn blk r (snd (sendAttempt bn blk p))"
  by (simp add: replyAt_def)

lemma sendBlockLoop_attempts:
  assumes "s + retry \<le> MAX_RETRIES" "\<forall>r<retry. replyAt bn blk r p \<notin> {Ack, Can}"
  shows "sendBlockLoop s bn blk p =
         sendBlockLoop (s + retry) bn blk (afterAttempts bn blk retry p)"
  using assms
proof (induction retry arbitrary: s p)
  case 0
  show ?case by simp
next
  case (Suc retry)
  obtain c p' where a: "sendAttempt bn blk p = (c, p')" by (cases "sendAttempt bn blk p")
  have c: "c \<noteq> Ack" "c \<noteq> Can"
    using Suc.prems(2) [rule_format, of 0] a by (simp_all add: replyAt_0)
  have lt: "s < MAX_RETRIES" using Suc.prems(1) by simp
  have e: "sendBlockLoop s bn blk p = sendBlockLoop (s + 1) bn blk p'"
    using lt a c by (subst sendBlockLoop_unfold) (cases c; simp)
  have "\<forall>r<retry. replyAt bn blk r p' \<notin> {Ack, Can}"
  proof (intro allI impI)
    fix r
    assume "r < retry"
    then have "Suc r < Suc retry" by simp
    from Suc.prems(2) [rule_format, OF this]
    show "replyAt bn blk r p' \<notin> {Ack, Can}" using a by (simp add: replyAt_Suc)
  qed
  from Suc.IH [OF _ this, of "s + 1"] Suc.prems(1)
  have "sendBlockLoop (s + 1) bn blk p' =
        sendBlockLoop (s + 1 + retry) bn blk (afterAttempts bn blk retry p')"
    by simp
  then show ?case unfolding e using a by simp
qed

lemma sendBlockLoop_reply:
  assumes "retry < MAX_RETRIES" "\<forall>r<retry. replyAt bn blk r p \<notin> {Ack, Can}"
  shows "replyAt bn blk retry p = Ack \<Longrightarrow>
           sendBlockLoop 0 bn blk p = (NextBlock, afterAttempts bn blk (Suc retry) p)"
    and "replyAt bn blk retry p = Can \<Longrightarrow>
           sendBlockLoop 0 bn blk p = (Cancelled, afterAttempts bn blk (Suc retry) p)"
    and "replyAt bn blk retry p \<notin> {Ack, Can} \<Longrightarrow>
           sendBlockLoop 0 bn blk p =
           sendBlockLoop (Suc retry) bn blk (afterAttempts bn blk (Suc retry) p)"
proof -
  have e: "sendBlockLoop 0 bn blk p =
           sendBlockLoop retry bn blk (afterAttempts bn blk retry p)"
    using sendBlockLoop_attempts [of 0 retry bn blk p] assms by simp
  obtain c q where a: "sendAttempt bn blk (afterAttempts bn blk retry p) = (c, q)"
    by (cases "sendAttempt bn blk (afterAttempts bn blk retry p)")
  have q: "afterAttempts bn blk (Suc retry) p = q" "replyAt bn blk retry p = c"
    using a afterAttempts_snoc [of bn blk retry p]
    by (simp_all add: replyAt_def del: afterAttempts.simps)
  show "replyAt bn blk retry p = Ack \<Longrightarrow>
           sendBlockLoop 0 bn blk p = (NextBlock, afterAttempts bn blk (Suc retry) p)"
    unfolding e q using assms(1) a by (subst sendBlockLoop_unfold) simp
  show "replyAt bn blk retry p = Can \<Longrightarrow>
           sendBlockLoop 0 bn blk p = (Cancelled, afterAttempts bn blk (Suc retry) p)"
    unfolding e q using assms(1) a by (subst sendBlockLoop_unfold) simp
  show "replyAt bn blk retry p \<notin> {Ack, Can} \<Longrightarrow>
           sendBlockLoop 0 bn blk p =
           sendBlockLoop (Suc retry) bn blk (afterAttempts bn blk (Suc retry) p)"
    unfolding e q using assms(1) a by (subst sendBlockLoop_unfold) (cases c; simp)
qed

lemma sendBlockLoop_exhausted:
  assumes "\<forall>r<MAX_RETRIES. replyAt bn blk r p \<notin> {Ack, Can}"
  shows "sendBlockLoop 0 bn blk p = (Exhausted, afterAttempts bn blk MAX_RETRIES p)"
proof -
  have "sendBlockLoop 0 bn blk p =
        sendBlockLoop MAX_RETRIES bn blk (afterAttempts bn blk MAX_RETRIES p)"
    using sendBlockLoop_attempts [of 0 MAX_RETRIES bn blk p] assms by simp
  then show ?thesis by (subst (asm) (2) sendBlockLoop_unfold) simp
qed

lemma portAtBlock_dataLoop:
  assumes "portAtBlock port0 f m = Some p"
  shows "\<exists>p1 buf'. handshakeLoop (now port0) port0 = (Negotiated, p1) \<and>
           length buf' = DATA_SIZE \<and> fault_after f = None \<and>
           DATA_SIZE * m < length (remaining f) \<and>
           dataLoop 0 1 (replicate DATA_SIZE 0)
             (f\<lparr>remaining := take (DATA_SIZE * m) (remaining f)\<rparr>) p1 =
             (None, int (DATA_SIZE * m), p) \<and>
           dataLoop 0 1 (replicate DATA_SIZE 0) f p1 =
           dataLoop (int (DATA_SIZE * m)) (1 + of_nat m) buf'
             (f\<lparr>remaining := drop (DATA_SIZE * m) (remaining f)\<rparr>) p"
proof -
  let ?pre = "take (DATA_SIZE * m) (remaining f)"
  from assms obtain p1 t where
    hs: "handshakeLoop (now port0) port0 = (Negotiated, p1)"
    and ok: "fault_after f = None" "DATA_SIZE * m < length (remaining f)"
    and pr: "dataLoop 0 1 (replicate DATA_SIZE 0) (f\<lparr>remaining := ?pre\<rparr>) p1 = (None, t, p)"
    by (auto simp: portAtBlock_def split: prod.splits handshake_exit.splits if_splits
                   option.splits)
  have len: "length ?pre = DATA_SIZE * m" using ok(2) by simp
  have dec: "remaining f = ?pre @ drop (DATA_SIZE * m) (remaining f)" by simp
  from dataLoop_append [OF ok(1) dec len _ pr]
  obtain buf' where "t = int (DATA_SIZE * m)" "length buf' = DATA_SIZE"
    "dataLoop 0 1 (replicate DATA_SIZE 0) f p1 =
     dataLoop t (1 + of_nat m) buf' (f\<lparr>remaining := drop (DATA_SIZE * m) (remaining f)\<rparr>) p"
    using len by auto
  with hs ok pr show ?thesis by blast
qed

subsection \<open>The run from a block on\<close>


lemma sendAttempt_silent:
  "script p = [] \<Longrightarrow>
   fst (sendAttempt bn blk p) = NoReply \<and> script (snd (sendAttempt bn blk p)) = []"
  by (simp add: sendAttempt_def classify_def readWithTimeout_def portWrite_def)

lemma replyAt_silent: "script p = [] \<Longrightarrow> replyAt bn blk r p = NoReply"
proof (induction r arbitrary: p)
  case 0
  then show ?case using sendAttempt_silent [of p bn blk] by (simp add: replyAt_0)
next
  case (Suc r)
  then show ?case using sendAttempt_silent [of p bn blk] by (simp add: replyAt_Suc)
qed

lemma run_at_block:
  assumes "portAtBlock port0 f m = Some p"
    and "sendBlockLoop 0 (1 + of_nat m) (chunkPayload (drop (DATA_SIZE * m) (remaining f))) p =
           (x, q)"
  shows "x = Cancelled \<Longrightarrow>
           xmodemSend_run port0 f = ((int (DATA_SIZE * m), Some TransferCancelled), q)"
    and "x = Exhausted \<Longrightarrow>
           xmodemSend_run port0 f =
             ((int (DATA_SIZE * m), Some (MaxRetriesReached (1 + of_nat m))), q)"
proof -
  from portAtBlock_dataLoop [OF assms(1)] obtain p1 buf' where
    hs: "handshakeLoop (now port0) port0 = (Negotiated, p1)"
    and b: "length buf' = DATA_SIZE" "fault_after f = None"
       "DATA_SIZE * m < length (remaining f)"
    and dl: "dataLoop 0 1 (replicate DATA_SIZE 0) f p1 =
           dataLoop (int (DATA_SIZE * m)) (1 + of_nat m) buf'
             (f\<lparr>remaining := drop (DATA_SIZE * m) (remaining f)\<rparr>) p"
    by blast
  let ?g = "f\<lparr>remaining := drop (DATA_SIZE * m) (remaining f)\<rparr>"
  have g: "fault_after ?g = None" "remaining ?g \<noteq> []" using b by simp_all
  have sb: "sendBlockLoop 0 (1 + of_nat m) (chunkPayload (remaining ?g)) p = (x, q)"
    using assms(2) by simp
  note nb = dataLoop_next_block [OF g b(1) sb, of "int (DATA_SIZE * m)"]
  show "x = Cancelled \<Longrightarrow>
           xmodemSend_run port0 f = ((int (DATA_SIZE * m), Some TransferCancelled), q)"
    using nb(2) hs dl by (simp add: xmodemSend_run_def)
  show "x = Exhausted \<Longrightarrow>
           xmodemSend_run port0 f =
             ((int (DATA_SIZE * m), Some (MaxRetriesReached (1 + of_nat m))), q)"
    using nb(3) hs dl by (simp add: xmodemSend_run_def)
qed

lemma run_after_data:
  assumes "handshakeLoop (now port0) port0 = (Negotiated, p1)"
    and "dataLoop 0 1 (replicate DATA_SIZE 0) f p1 = (er, t, p2)"
  shows "\<exists>e. e \<le> 10 \<and> (er \<noteq> None \<longrightarrow> e = 0) \<and> (er = None \<longrightarrow> 1 \<le> e) \<and>
           written (snd (xmodemSend_run port0 f)) = written p2 @ replicate e [EOT] \<and>
           fst (xmodemSend port0 f) = t"
proof (cases er)
  case (Some err)
  then have "xmodemSend_run port0 f = ((t, Some err), p2)"
    using assms by (simp add: xmodemSend_run_def)
  then show ?thesis using Some by (intro exI [of _ 0]) (simp add: xmodemSend_def)
next
  case None
  have run: "snd (xmodemSend_run port0 f) = snd (eotLoop 0 [0] [] p2)"
    "fst (xmodemSend port0 f) = t"
    using assms None
    by (auto simp: xmodemSend_run_def xmodemSend_def split: prod.splits bool.splits)
  from eotLoop_writes [of "[0]" 0 "[]" p2] obtain e where
    "e \<le> 10" "1 \<le> e"
    "written (snd (eotLoop 0 [0] [] p2)) = written p2 @ replicate e [EOT]"
    by auto
  then show ?thesis using run None by (intro exI [of _ e]) simp
qed

lemma run_after_block:
  assumes "portAtBlock port0 f m = Some p"
    and "sendBlockLoop 0 (1 + of_nat m) (chunkPayload (drop (DATA_SIZE * m) (remaining f))) p =
           (x, q)"
  shows "\<exists>ks e. written (snd (xmodemSend_run port0 f)) =
           written q @
           blocksTrace (1 + of_nat m + 1) (drop DATA_SIZE (drop (DATA_SIZE * m) (remaining f))) ks @
           replicate e [EOT] \<and>
           (\<forall>k\<in>set ks. 1 \<le> k \<and> k \<le> MAX_RETRIES) \<and> e \<le> 10 \<and>
           (x \<noteq> NextBlock \<longrightarrow> ks = [] \<and> e = 0)"
proof -
  from portAtBlock_dataLoop [OF assms(1)] obtain p1 buf' where
    hs: "handshakeLoop (now port0) port0 = (Negotiated, p1)"
    and b: "length buf' = DATA_SIZE" "fault_after f = None"
       "DATA_SIZE * m < length (remaining f)"
    and dl: "dataLoop 0 1 (replicate DATA_SIZE 0) f p1 =
           dataLoop (int (DATA_SIZE * m)) (1 + of_nat m) buf'
             (f\<lparr>remaining := drop (DATA_SIZE * m) (remaining f)\<rparr>) p"
    by blast
  let ?g = "f\<lparr>remaining := drop (DATA_SIZE * m) (remaining f)\<rparr>"
  have g: "fault_after ?g = None" "remaining ?g \<noteq> []" using b by simp_all
  have sb: "sendBlockLoop 0 (1 + of_nat m) (chunkPayload (remaining ?g)) p = (x, q)"
    using assms(2) by simp
  note nb = dataLoop_next_block [OF g b(1) sb, of "int (DATA_SIZE * m)"]
  obtain er t p2 where d: "dataLoop 0 1 (replicate DATA_SIZE 0) f p1 = (er, t, p2)"
    by (metis prod.exhaust)
  from run_after_data [OF hs d] obtain e where
    e: "e \<le> 10" "er \<noteq> None \<longrightarrow> e = 0"
       "written (snd (xmodemSend_run port0 f)) = written p2 @ replicate e [EOT]"
    by blast
  show ?thesis
  proof (cases x)
    case NextBlock
    let ?h = "?g\<lparr>remaining := drop DATA_SIZE (remaining ?g)\<rparr>"
    have "dataLoop (int (DATA_SIZE * m) + int (min DATA_SIZE (length (remaining ?g))))
            (1 + of_nat m + 1) (chunkPayload (remaining ?g)) ?h q = (er, t, p2)"
      using nb(1) [OF NextBlock] dl d by simp
    from dataLoop_trace [OF length_chunkPayload this] obtain ks where
      "written p2 = written q @ blocksTrace (1 + of_nat m + 1) (remaining ?h) ks"
      "\<forall>k\<in>set ks. 1 \<le> k \<and> k \<le> MAX_RETRIES"
      by blast
    with e NextBlock show ?thesis
      by (intro exI [of _ ks] exI [of _ e]) simp
  next
    case Cancelled
    then have "p2 = q" "er \<noteq> None" using nb(2) dl d by simp_all
    with e Cancelled show ?thesis by (intro exI [of _ "[]"] exI [of _ 0]) simp
  next
    case Exhausted
    then have "p2 = q" "er \<noteq> None" using nb(3) dl d by simp_all
    with e Exhausted show ?thesis by (intro exI [of _ "[]"] exI [of _ 0]) simp
  qed
qed

lemma firmware_remaining_twice:
  "f\<lparr>remaining := a, remaining := b\<rparr> = f\<lparr>remaining := b\<rparr>"
  by simp

lemma portAtBlock_Suc:
  assumes "portAtBlock port0 f m = Some p"
    and "sendBlockLoop 0 (1 + of_nat m) (chunkPayload (drop (DATA_SIZE * m) (remaining f))) p =
           (NextBlock, q)"
    and "DATA_SIZE * Suc m < length (remaining f)"
  shows "portAtBlock port0 f (Suc m) = Some q"
proof -
  from portAtBlock_dataLoop [OF assms(1)] obtain p1 buf0 where
    hs: "handshakeLoop (now port0) port0 = (Negotiated, p1)"
    and b: "fault_after f = None" "DATA_SIZE * m < length (remaining f)"
    and pr: "dataLoop 0 1 (replicate DATA_SIZE 0)
             (f\<lparr>remaining := take (DATA_SIZE * m) (remaining f)\<rparr>) p1 =
             (None, int (DATA_SIZE * m), p)"
    by blast
  let ?R = "remaining f"
  let ?pre = "take (DATA_SIZE * m) ?R"
  let ?B = "take DATA_SIZE (drop (DATA_SIZE * m) ?R)"
  let ?g = "f\<lparr>remaining := take (DATA_SIZE * Suc m) ?R\<rparr>"
  have lB: "length ?B = DATA_SIZE" using assms(3) by simp
  have cB: "chunkPayload ?B = ?B" "chunkPayload (drop (DATA_SIZE * m) ?R) = ?B"
    using assms(3) by (simp_all add: chunkPayload_def)
  have "remaining ?g = take (DATA_SIZE * m + DATA_SIZE) ?R" by (simp add: add.commute)
  also have "\<dots> = ?pre @ ?B" by (rule take_add)
  finally have dec: "remaining ?g = ?pre @ ?B" .
  have len: "length ?pre = DATA_SIZE * m" using b(2) by simp
  have gp: "?g\<lparr>remaining := ?pre\<rparr> = f\<lparr>remaining := ?pre\<rparr>"
    by (rule firmware_remaining_twice)
  have pr': "dataLoop 0 1 (replicate DATA_SIZE 0) (?g\<lparr>remaining := ?pre\<rparr>) p1 =
             (None, int (DATA_SIZE * m), p)"
    unfolding gp by (rule pr)
  have fg: "fault_after ?g = None" using b(1) by simp
  have lr: "length (replicate DATA_SIZE (0 :: byte)) = DATA_SIZE" by simp
  from dataLoop_append [OF fg dec len lr pr']
  obtain buf' where bl: "length buf' = DATA_SIZE"
    and dl: "dataLoop 0 1 (replicate DATA_SIZE 0) ?g p1 =
       dataLoop (int (DATA_SIZE * m)) (1 + of_nat m) buf' (?g\<lparr>remaining := ?B\<rparr>) p"
    by blast
  let ?h = "?g\<lparr>remaining := ?B\<rparr>"
  have h: "fault_after ?h = None" "remaining ?h \<noteq> []"
    using b(1) lB by (auto simp: DATA_SIZE_def)
  have sb: "sendBlockLoop 0 (1 + of_nat m) (chunkPayload (remaining ?h)) p = (NextBlock, q)"
    using assms(2) cB by simp
  have e: "dataLoop t b (chunkPayload (remaining ?h))
             (?h\<lparr>remaining := drop DATA_SIZE (remaining ?h)\<rparr>) q = (None, t, q)" for t b
    by (rule dataLoop_EOF [OF ReadFull_empty]) (simp add: lB)
  have "dataLoop 0 1 (replicate DATA_SIZE 0) ?g p1 =
        (None, int (DATA_SIZE * m) + int (min DATA_SIZE (length (remaining ?h))), q)"
    unfolding dl dataLoop_next_block(1) [OF h bl sb refl] e ..
  then show ?thesis
    using hs b(1) assms(3) by (simp add: portAtBlock_def)
qed

lemma last_block_acknowledged:
  assumes "portAtBlock port0 f m = Some p"
    and "sendBlockLoop 0 (1 + of_nat m) (chunkPayload (drop (DATA_SIZE * m) (remaining f))) p =
           (NextBlock, q)"
    and "\<not> DATA_SIZE * Suc m < length (remaining f)"
  shows "\<exists>e. 1 \<le> e \<and> e \<le> 10 \<and>
           written (snd (xmodemSend_run port0 f)) = written q @ replicate e [EOT] \<and>
           fst (xmodemSend port0 f) = int (length (remaining f))"
proof -
  from portAtBlock_dataLoop [OF assms(1)] obtain p1 buf' where
    hs: "handshakeLoop (now port0) port0 = (Negotiated, p1)"
    and b: "length buf' = DATA_SIZE" "fault_after f = None"
       "DATA_SIZE * m < length (remaining f)"
    and dl: "dataLoop 0 1 (replicate DATA_SIZE 0) f p1 =
           dataLoop (int (DATA_SIZE * m)) (1 + of_nat m) buf'
             (f\<lparr>remaining := drop (DATA_SIZE * m) (remaining f)\<rparr>) p"
    by blast
  let ?g = "f\<lparr>remaining := drop (DATA_SIZE * m) (remaining f)\<rparr>"
  have g: "fault_after ?g = None" "remaining ?g \<noteq> []" using b by simp_all
  have sb: "sendBlockLoop 0 (1 + of_nat m) (chunkPayload (remaining ?g)) p = (NextBlock, q)"
    using assms(2) by simp
  have e: "dataLoop t b (chunkPayload (remaining ?g))
             (?g\<lparr>remaining := drop DATA_SIZE (remaining ?g)\<rparr>) q = (None, t, q)" for t b
    using assms(3) by (intro dataLoop_EOF [OF ReadFull_empty]) simp
  have "min DATA_SIZE (length (remaining ?g)) = length (remaining f) - DATA_SIZE * m"
    using assms(3) by simp
  then have t: "int (DATA_SIZE * m) + int (min DATA_SIZE (length (remaining ?g))) =
           int (length (remaining f))"
    using b(3) by simp
  have "dataLoop 0 1 (replicate DATA_SIZE 0) f p1 = (None, int (length (remaining f)), q)"
    unfolding dl dataLoop_next_block(1) [OF g b(1) sb refl] e t ..
  from run_after_data [OF hs this] show ?thesis by auto
qed

subsection \<open>Cancellation by the receiver\<close>



subsection \<open>Ten attempts without an acknowledgement\<close>

text \<open>
  Claim C5, as amended. Let the handshake succeed and the first \<open>m\<close> blocks of the file
  be sent and acknowledged, which leaves the port as \<open>p\<close>. When each of the ten attempts
  of the next block (number \<open>bn\<close>, payload \<open>blk\<close>) is answered by neither \<^verbatim>\<open>ACK\<close> nor
  \<^verbatim>\<open>CAN\<close> (by \<^verbatim>\<open>NAK\<close>, by another byte, by a read error or by nothing within 5 s),
  \<^verbatim>\<open>xmodemSend\<close> has written the packet of the block exactly ten times and returns the
  error "transfer failed: max retries reached for block \<open>bn\<close>" with \<open>128 * m\<close> bytes
  sent, the bytes of the \<open>m\<close> acknowledged blocks.
\<close>

theorem retries_exhausted:
  assumes "portAtBlock port0 f m = Some p"
    and "bn = 1 + of_nat m" "blk = chunkPayload (drop (DATA_SIZE * m) (remaining f))"
    and "\<forall>r<MAX_RETRIES. replyAt bn blk r p \<notin> {Ack, Can}"
  shows "\<exists>q. xmodemSend_run port0 f = ((int (128 * m), Some (MaxRetriesReached bn)), q) \<and>
           written q = written p @ replicate 10 (buildPacket bn blk)"
proof -
  let ?q = "afterAttempts bn blk MAX_RETRIES p"
  have "sendBlockLoop 0 bn blk p = (Exhausted, ?q)"
    using sendBlockLoop_exhausted [OF assms(4)] .
  from run_at_block(2) [OF assms(1) this [unfolded assms(2,3)] refl]
  have "xmodemSend_run port0 f = ((int (128 * m), Some (MaxRetriesReached bn)), ?q)"
    unfolding assms(2,3) by (simp add: DATA_SIZE_def)
  then show ?thesis
    using afterAttempts_written [of bn blk MAX_RETRIES p] by (auto simp: MAX_RETRIES_def)
qed

theorem retries_exhausted_witness:
  "portAtBlock
     \<lparr>script = [(10, ReadBytes [CRC_START]), (10, ReadBytes [ACK]), (10, ReadBytes [NAK]),
                (0, ReadBytes [])],
      written = [], now = 0\<rparr>
     \<lparr>remaining = replicate 128 0x55 @ [1, 2], fault_after = None\<rparr> 1 =
     Some \<lparr>script = [(10, ReadBytes [NAK]), (0, ReadBytes [])],
            written = [probe, buildPacket 1 (replicate 128 0x55)], now = 20\<rparr> \<and>
   replyAt 2 ([1, 2] @ replicate 126 0x1A) 0
     \<lparr>script = [(10, ReadBytes [NAK]), (0, ReadBytes [])],
      written = [probe, buildPacket 1 (replicate 128 0x55)], now = 20\<rparr> = Nak \<and>
   (\<exists>q. xmodemSend_run
       \<lparr>script = [(10, ReadBytes [CRC_START]), (10, ReadBytes [ACK]), (10, ReadBytes [NAK]),
                  (0, ReadBytes [])],
        written = [], now = 0\<rparr>
       \<lparr>remaining = replicate 128 0x55 @ [1, 2], fault_after = None\<rparr> =
       ((128, Some (MaxRetriesReached 2)), q) \<and>
      written q =
        [probe, buildPacket 1 (replicate 128 0x55)] @
        replicate 10 (buildPacket 2 ([1, 2] @ replicate 126 0x1A)))"
proof -
  let ?A = "\<lparr>script = [(10, ReadBytes [CRC_START]), (10, ReadBytes [ACK]), (10, ReadBytes [NAK]),
                (0, ReadBytes [])],
      written = [], now = 0\<rparr>"
  let ?F = "\<lparr>remaining = replicate 128 0x55 @ [1, 2], fault_after = None\<rparr>"
  let ?B = "\<lparr>script = [(10, ReadBytes [NAK]), (0, ReadBytes [])],
            written = [probe, buildPacket 1 (replicate 128 0x55)], now = 20\<rparr>"
  let ?blk = "[1, 2] @ replicate 126 (0x1A :: byte)"
  have a1: "portAtBlock ?A ?F 1 = Some ?B" by code_simp
  have a2: "(2 :: byte) = 1 + of_nat 1" by simp
  have a3: "?blk = chunkPayload (drop (DATA_SIZE * 1) (remaining ?F))" by code_simp
  have r0: "replyAt 2 ?blk 0 ?B = Nak" by code_simp
  have s0: "script (snd (sendAttempt 2 ?blk ?B)) = []" by code_simp
  have a4: "\<forall>r<MAX_RETRIES. replyAt 2 ?blk r ?B \<notin> {Ack, Can}"
  proof (intro allI impI)
    fix r
    show "replyAt 2 ?blk r ?B \<notin> {Ack, Can}"
    proof (cases r)
      case 0
      then show ?thesis using r0 by simp
    next
      case (Suc k)
      then show ?thesis using replyAt_silent [OF s0, of 2 ?blk k] by (simp add: replyAt_Suc)
    qed
  qed
  from retries_exhausted [OF a1 a2 a3 a4] obtain q where
    "xmodemSend_run ?A ?F = ((int (128 * 1), Some (MaxRetriesReached 2)), q)"
    "written q = written ?B @ replicate 10 (buildPacket 2 ?blk)"
    by blast
  then have "\<exists>q. xmodemSend_run ?A ?F = ((128, Some (MaxRetriesReached 2)), q) \<and>
      written q =
        [probe, buildPacket 1 (replicate 128 0x55)] @ replicate 10 (buildPacket 2 ?blk)"
    by simp
  with a1 r0 show ?thesis by blast
qed

text \<open>
  The claim as stated, for every block attempted ten times without a positive
  acknowledgement, fails: here nine attempts of the first block time out and the tenth
  is answered by \<^verbatim>\<open>CAN\<close>. The block has been written ten times and never acknowledged,
  and the error is the cancellation, not the exhausted retries.
\<close>

theorem cancel_on_tenth_attempt_counterexample:
  "xmodemSend_run
     \<lparr>script = (10, ReadBytes [CRC_START]) # replicate 9 (5000, ReadBytes []) @
                [(10, ReadBytes [CAN])],
      written = [], now = 0\<rparr>
     \<lparr>remaining = [1, 2, 3], fault_after = None\<rparr> =
     ((0, Some TransferCancelled),
      \<lparr>script = [],
       written = probe # replicate 10 (buildPacket 1 ([1, 2, 3] @ replicate 125 0x1A)),
       now = 45020\<rparr>)"
  by code_simp

subsection \<open>Sequence numbers and retransmission\<close>

text \<open>
  Claim C4, as amended. Let the handshake succeed and the first \<open>m\<close> blocks of the file
  be sent and acknowledged, which leaves the port as \<open>p\<close>; the next block has the payload
  \<open>blk\<close> and the number \<open>bn\<close>. Then \<open>bn\<close> is \<open>m + 1\<close> modulo 256: 1 for the first
  block, one more for each acknowledged block, 0 after 255. From \<open>p\<close> on the run writes,
  one to ten times each, the packets of consecutive chunks under consecutive numbers
  starting with \<open>bn\<close>, and then only \<^verbatim>\<open>EOT\<close> bytes: all packets of one block carry the same
  number. A \<^verbatim>\<open>NAK\<close> in reply to an attempt other than the tenth (the attempts before it
  answered by neither \<^verbatim>\<open>ACK\<close> nor \<^verbatim>\<open>CAN\<close>) is followed by one more write of the same
  packet. An \<^verbatim>\<open>ACK\<close> in reply to an attempt ends the writes of this packet: if the file
  has a further chunk, the run stands at block \<open>m + 1\<close> with the port as that attempt
  left it, and otherwise only \<^verbatim>\<open>EOT\<close> bytes follow.
\<close>

theorem sequence_numbers_and_retries:
  assumes "portAtBlock port0 f m = Some p"
    and "bn = 1 + of_nat m" "blk = chunkPayload (drop (DATA_SIZE * m) (remaining f))"
  shows "unat bn = (m + 1) mod 256 \<and>
    (\<exists>ks e. ks \<noteq> [] \<and> (\<forall>k\<in>set ks. 1 \<le> k \<and> k \<le> 10) \<and>
       written (snd (xmodemSend_run port0 f)) =
         written p @ blocksTrace bn (drop (DATA_SIZE * m) (remaining f)) ks @
         replicate e [EOT]) \<and>
    (\<forall>retry. retry + 1 < MAX_RETRIES \<and> (\<forall>r<retry. replyAt bn blk r p \<notin> {Ack, Can}) \<and>
       replyAt bn blk retry p = Nak \<longrightarrow>
       (\<exists>ws. written (snd (xmodemSend_run port0 f)) =
          written p @ replicate (retry + 2) (buildPacket bn blk) @ ws)) \<and>
    (\<forall>retry. retry < MAX_RETRIES \<and> (\<forall>r<retry. replyAt bn blk r p \<notin> {Ack, Can}) \<and>
       replyAt bn blk retry p = Ack \<longrightarrow>
       written (afterAttempts bn blk (Suc retry) p) =
         written p @ replicate (Suc retry) (buildPacket bn blk) \<and>
       (if DATA_SIZE * Suc m < length (remaining f)
        then portAtBlock port0 f (Suc m) = Some (afterAttempts bn blk (Suc retry) p)
        else (\<exists>e. 1 \<le> e \<and>
                written (snd (xmodemSend_run port0 f)) =
                  written (afterAttempts bn blk (Suc retry) p) @ replicate e [EOT])))"
proof (intro conjI allI impI)
  show "unat bn = (m + 1) mod 256"
    unfolding assms(2) by (simp add: unat_word_ariths unat_of_nat mod_simps)
next
  obtain x q where sb: "sendBlockLoop 0 bn blk p = (x, q)"
    by (cases "sendBlockLoop 0 bn blk p")
  from sendBlockLoop_trace [of 0 bn blk p] sb obtain k where
    k: "written q = written p @ replicate k (buildPacket bn blk)" "k \<le> 10" "1 \<le> k"
    by (auto simp: MAX_RETRIES_def)
  from run_after_block [OF assms(1) sb [unfolded assms(2,3)]] obtain ks e where
    t: "written (snd (xmodemSend_run port0 f)) =
           written q @
           blocksTrace (bn + 1) (drop DATA_SIZE (drop (DATA_SIZE * m) (remaining f))) ks @
           replicate e [EOT]"
       "\<forall>k\<in>set ks. 1 \<le> k \<and> k \<le> MAX_RETRIES"
    unfolding assms(2) by blast
  have "written (snd (xmodemSend_run port0 f)) =
         written p @ blocksTrace bn (drop (DATA_SIZE * m) (remaining f)) (k # ks) @
         replicate e [EOT]"
    using t(1) k(1) assms(3) by simp
  moreover have "\<forall>j\<in>set (k # ks). 1 \<le> j \<and> j \<le> 10"
    using t(2) k(2,3) by (simp add: MAX_RETRIES_def)
  ultimately show "\<exists>ks e. ks \<noteq> [] \<and> (\<forall>k\<in>set ks. 1 \<le> k \<and> k \<le> 10) \<and>
       written (snd (xmodemSend_run port0 f)) =
         written p @ blocksTrace bn (drop (DATA_SIZE * m) (remaining f)) ks @
         replicate e [EOT]"
    by (intro exI [of _ "k # ks"] exI [of _ e]) simp
next
  fix retry
  assume a: "retry + 1 < MAX_RETRIES \<and> (\<forall>r<retry. replyAt bn blk r p \<notin> {Ack, Can}) \<and>
       replyAt bn blk retry p = Nak"
  let ?q = "afterAttempts bn blk (Suc retry) p"
  have lt: "retry < MAX_RETRIES" using a by simp
  have e: "sendBlockLoop 0 bn blk p = sendBlockLoop (Suc retry) bn blk ?q"
    using sendBlockLoop_reply(3) [OF lt, of bn blk p] a by simp
  obtain x q where sb: "sendBlockLoop 0 bn blk p = (x, q)"
    by (cases "sendBlockLoop 0 bn blk p")
  from sendBlockLoop_trace [of "Suc retry" bn blk ?q] sb e a obtain k where
    k: "written q = written ?q @ replicate k (buildPacket bn blk)" "1 \<le> k"
    by auto
  have wq: "written q = written p @ replicate (retry + 2) (buildPacket bn blk) @
              replicate (k - 1) (buildPacket bn blk)"
  proof -
    have "replicate (Suc retry) (buildPacket bn blk) @ replicate k (buildPacket bn blk) =
          replicate (retry + 2) (buildPacket bn blk) @ replicate (k - 1) (buildPacket bn blk)"
      using k(2) by (simp add: replicate_add [symmetric] del: replicate_Suc)
    then show ?thesis
      using k(1) afterAttempts_written [of bn blk "Suc retry" p] by simp
  qed
  from run_after_block [OF assms(1) sb [unfolded assms(2,3)]] obtain ks e where
    "written (snd (xmodemSend_run port0 f)) =
           written q @
           blocksTrace (bn + 1) (drop DATA_SIZE (drop (DATA_SIZE * m) (remaining f))) ks @
           replicate e [EOT]"
    unfolding assms(2) by blast
  then show "\<exists>ws. written (snd (xmodemSend_run port0 f)) =
          written p @ replicate (retry + 2) (buildPacket bn blk) @ ws"
    unfolding wq by simp
next
  fix retry
  assume a: "retry < MAX_RETRIES \<and> (\<forall>r<retry. replyAt bn blk r p \<notin> {Ack, Can}) \<and>
       replyAt bn blk retry p = Ack"
  show "written (afterAttempts bn blk (Suc retry) p) =
         written p @ replicate (Suc retry) (buildPacket bn blk)"
    by (rule afterAttempts_written)
next
  fix retry
  assume a: "retry < MAX_RETRIES \<and> (\<forall>r<retry. replyAt bn blk r p \<notin> {Ack, Can}) \<and>
       replyAt bn blk retry p = Ack"
  let ?q = "afterAttempts bn blk (Suc retry) p"
  have sb: "sendBlockLoop 0 bn blk p = (NextBlock, ?q)"
    using sendBlockLoop_reply(1) [of retry bn blk p] a by simp
  show "if DATA_SIZE * Suc m < length (remaining f)
        then portAtBlock port0 f (Suc m) = Some ?q
        else (\<exists>e. 1 \<le> e \<and>
                written (snd (xmodemSend_run port0 f)) = written ?q @ replicate e [EOT])"
  proof (cases "DATA_SIZE * Suc m < length (remaining f)")
    case True
    from portAtBlock_Suc [OF assms(1) sb [unfolded assms(2,3)] True]
    show ?thesis using True unfolding assms(2,3) by simp
  next
    case False
    from last_block_acknowledged [OF assms(1) sb [unfolded assms(2,3)] False]
    show ?thesis using False unfolding assms(2,3) by auto
  qed
qed

theorem sequence_numbers_and_retries_witness:
  "portAtBlock
     \<lparr>script = [(10, ReadBytes [CRC_START]), (10, ReadBytes [NAK]), (0, ReadBytes []),
                (10, ReadBytes [ACK]), (10, ReadBytes [ACK]), (10, ReadBytes [ACK])],
      written = [], now = 0\<rparr>
     \<lparr>remaining = replicate 128 0x55 @ [1, 2], fault_after = None\<rparr> 0 =
     Some \<lparr>script = [(10, ReadBytes [NAK]), (0, ReadBytes []), (10, ReadBytes [ACK]),
                      (10, ReadBytes [ACK]), (10, ReadBytes [ACK])],
            written = [probe], now = 10\<rparr> \<and>
   replyAt 1 (replicate 128 0x55)  0
     \<lparr>script = [(10, ReadBytes [NAK]), (0, ReadBytes []), (10, ReadBytes [ACK]),
                (10, ReadBytes [ACK]), (10, ReadBytes [ACK])],
      written = [probe], now = 10\<rparr> = Nak \<and>
   replyAt 1 (replicate 128 0x55) 1
     \<lparr>script = [(10, ReadBytes [NAK]), (0, ReadBytes []), (10, ReadBytes [ACK]),
                (10, ReadBytes [ACK]), (10, ReadBytes [ACK])],
      written = [probe], now = 10\<rparr> = Ack \<and>
   unat (1 :: byte) = (0 + 1) mod 256 \<and>
   (\<exists>ws. written (snd (xmodemSend_run
       \<lparr>script = [(10, ReadBytes [CRC_START]), (10, ReadBytes [NAK]), (0, ReadBytes []),
                  (10, ReadBytes [ACK]), (10, ReadBytes [ACK]), (10, ReadBytes [ACK])],
        written = [], now = 0\<rparr>
       \<lparr>remaining = replicate 128 0x55 @ [1, 2], fault_after = None\<rparr>)) =
      written \<lparr>script = [(10, ReadBytes [NAK]), (0, ReadBytes []), (10, ReadBytes [ACK]),
                         (10, ReadBytes [ACK]), (10, ReadBytes [ACK])],
               written = [probe], now = 10\<rparr> @
      replicate (0 + 2) (buildPacket 1 (replicate 128 0x55)) @ ws) \<and>
   portAtBlock
     \<lparr>script = [(10, ReadBytes [CRC_START]), (10, ReadBytes [NAK]), (0, ReadBytes []),
                (10, ReadBytes [ACK]), (10, ReadBytes [ACK]), (10, ReadBytes [ACK])],
      written = [], now = 0\<rparr>
     \<lparr>remaining = replicate 128 0x55 @ [1, 2], fault_after = None\<rparr> 1 =
     Some \<lparr>script = [(10, ReadBytes [ACK]), (10, ReadBytes [ACK])],
            written = [probe, buildPacket 1 (replicate 128 0x55),
                       buildPacket 1 (replicate 128 0x55)],
            now = 30\<rparr> \<and>
   written (snd (xmodemSend_run
       \<lparr>script = [(10, ReadBytes [CRC_START]), (10, ReadBytes [NAK]), (0, ReadBytes []),
                  (10, ReadBytes [ACK]), (10, ReadBytes [ACK]), (10, ReadBytes [ACK])],
        written = [], now = 0\<rparr>
       \<lparr>remaining = replicate 128 0x55 @ [1, 2], fault_after = None\<rparr>)) =
     [probe, buildPacket 1 (replicate 128 0x55), buildPacket 1 (replicate 128 0x55),
      buildPacket 2 ([1, 2] @ replicate 126 0x1A), [EOT]] \<and>
   blocksTrace 255 (replicate 129 7) [1, 1] =
     [buildPacket 255 (replicate 128 7), buildPacket 0 (7 # replicate 127 0x1A)]"
proof -
  let ?A = "\<lparr>script = [(10, ReadBytes [CRC_START]), (10, ReadBytes [NAK]), (0, ReadBytes []),
                (10, ReadBytes [ACK]), (10, ReadBytes [ACK]), (10, ReadBytes [ACK])],
      written = [], now = 0\<rparr>"
  let ?F = "\<lparr>remaining = replicate 128 0x55 @ [1, 2], fault_after = None\<rparr>"
  let ?B = "\<lparr>script = [(10, ReadBytes [NAK]), (0, ReadBytes []), (10, ReadBytes [ACK]),
                      (10, ReadBytes [ACK]), (10, ReadBytes [ACK])],
            written = [probe], now = 10\<rparr>"
  let ?C = "\<lparr>script = [(10, ReadBytes [ACK]), (10, ReadBytes [ACK])],
            written = [probe, buildPacket 1 (replicate 128 0x55),
                       buildPacket 1 (replicate 128 0x55)],
            now = 30\<rparr>"
  let ?blk = "replicate 128 (0x55 :: byte)"
  have a1: "portAtBlock ?A ?F 0 = Some ?B" by code_simp
  have a2: "(1 :: byte) = 1 + of_nat 0" by simp
  have a3: "?blk = chunkPayload (drop (DATA_SIZE * 0) (remaining ?F))" by code_simp
  have r0: "replyAt 1 ?blk 0 ?B = Nak" by code_simp
  have r1: "replyAt 1 ?blk 1 ?B = Ack" by code_simp
  have aq: "afterAttempts 1 ?blk (Suc 1) ?B = ?C" by code_simp
  have run: "written (snd (xmodemSend_run ?A ?F)) =
     [probe, buildPacket 1 ?blk, buildPacket 1 ?blk,
      buildPacket 2 ([1, 2] @ replicate 126 0x1A), [EOT]]" by code_simp
  have wrap: "blocksTrace 255 (replicate 129 7) [1, 1] =
     [buildPacket 255 (replicate 128 7), buildPacket 0 (7 # replicate 127 0x1A)]" by code_simp
  note T = sequence_numbers_and_retries [OF a1 a2 a3]
  have t1: "unat (1 :: byte) = (0 + 1) mod 256" using T by blast
  have h0: "0 + 1 < MAX_RETRIES \<and> (\<forall>r<0. replyAt 1 ?blk r ?B \<notin> {Ack, Can}) \<and>
            replyAt 1 ?blk 0 ?B = Nak"
    using r0 by (simp add: MAX_RETRIES_def)
  have h1: "1 < MAX_RETRIES \<and> (\<forall>r<1. replyAt 1 ?blk r ?B \<notin> {Ack, Can}) \<and>
            replyAt 1 ?blk 1 ?B = Ack"
    using r0 r1 by (simp add: MAX_RETRIES_def)
  from T h0 have t2: "\<exists>ws. written (snd (xmodemSend_run ?A ?F)) =
          written ?B @ replicate (0 + 2) (buildPacket 1 ?blk) @ ws"
    by blast
  from T h1 have "if DATA_SIZE * Suc 0 < length (remaining ?F)
        then portAtBlock ?A ?F (Suc 0) = Some (afterAttempts 1 ?blk (Suc 1) ?B)
        else (\<exists>e. 1 \<le> e \<and>
                written (snd (xmodemSend_run ?A ?F)) =
                  written (afterAttempts 1 ?blk (Suc 1) ?B) @ replicate e [EOT])"
    by blast
  then have t3: "portAtBlock ?A ?F 1 = Some ?C"
    unfolding aq by (simp add: DATA_SIZE_def)
  from a1 r0 r1 t1 t2 t3 run wrap show ?thesis by blast
qed

text \<open>
  The claim as stated, for every \<^verbatim>\<open>NAK\<close>, fails at the tenth attempt: here all ten
  attempts of the first block are answered by \<^verbatim>\<open>NAK\<close>. After the tenth \<^verbatim>\<open>NAK\<close> the packet
  is not written again; the run has written it ten times and ends with the error of the
  exhausted retries.
\<close>

theorem tenth_nak_counterexample:
  "portAtBlock
     \<lparr>script = (10, ReadBytes [CRC_START]) #
                concat (replicate 10 [(10, ReadBytes [NAK]), (0, ReadBytes [])]),
      written = [], now = 0\<rparr>
     \<lparr>remaining = [1, 2, 3], fault_after = None\<rparr> 0 =
     Some \<lparr>script = concat (replicate 10 [(10, ReadBytes [NAK]), (0, ReadBytes [])]),
            written = [probe], now = 10\<rparr> \<and>
   replyAt 1 ([1, 2, 3] @ replicate 125 0x1A) 9
     \<lparr>script = concat (replicate 10 [(10, ReadBytes [NAK]), (0, ReadBytes [])]),
      written = [probe], now = 10\<rparr> = Nak \<and>
   written (snd (xmodemSend_run
     \<lparr>script = (10, ReadBytes [CRC_START]) #
                concat (replicate 10 [(10, ReadBytes [NAK]), (0, ReadBytes [])]),
      written = [], now = 0\<rparr>
     \<lparr>remaining = [1, 2, 3], fault_after = None\<rparr>)) =
     probe # replicate 10 (buildPacket 1 ([1, 2, 3] @ replicate 125 0x1A)) \<and>
   xmodemSend
     \<lparr>script = (10, ReadBytes [CRC_START]) #
                concat (replicate 10 [(10, ReadBytes [NAK]), (0, ReadBytes [])]),
      written = [], now = 0\<rparr>
     \<lparr>remaining = [1, 2, 3], fault_after = None\<rparr> = (0, Some (MaxRetriesReached 1))"
  by code_simp

end
